theory Spec2Isabelle
  imports Main
begin

text \<open>
  A model of \<^verbatim>\<open>app/utils.py\<close> of LitKeeper: \<^verbatim>\<open>download_story\<close>, which crawls the pages
  and chapters of a story, and the part of \<^verbatim>\<open>create_epub_file\<close> that fills the metadata
  and the pages of the book. The network and the HTML parsers are a parameter: a function
  from URLs to what fetching and parsing them gives.
\<close>

section \<open>Strings\<close>

text \<open>
  Python strings are modelled as \<open>string\<close>: a character is a code point below 256
  (Latin-1), so the model speaks about text in that range. \<open>nl\<close> is the line feed
  written \<^verbatim>\<open>\n\<close> in the source.
\<close>

definition nl :: char where
  "nl = CHR 0x0A"

text \<open>
  \<^verbatim>\<open>str.strip()\<close>: the characters Python counts as white space (\<^verbatim>\<open>str.isspace\<close>) are
  removed from both ends. Below 256 these are the ASCII ones, U+0085 and U+00A0.
\<close>

definition is_space :: "char \<Rightarrow> bool" where
  "is_space c = (c \<in> {CHR 0x09, CHR 0x0A, CHR 0x0B, CHR 0x0C, CHR 0x0D,
                       CHR 0x1C, CHR 0x1D, CHR 0x1E, CHR 0x1F, CHR 0x20,
                       CHR 0x85, CHR 0xA0})"

definition lstrip :: "string \<Rightarrow> string" where
  "lstrip s = dropWhile is_space s"

definition rstrip :: "string \<Rightarrow> string" where
  "rstrip s = rev (dropWhile is_space (rev s))"

definition strip :: "string \<Rightarrow> string" where
  "strip s = rstrip (lstrip s)"

text \<open>
  \<^verbatim>\<open>str.lower()\<close>: the letters A to Z and the upper-case letters of Latin-1 (U+00C0 to
  U+00DE without the multiplication sign U+00D7) are mapped to the letter 32 code points
  later; every other character is kept.
\<close>

definition upper_letters :: string where
  "upper_letters =
     ''ABCDEFGHIJKLMNOPQRSTUVWXYZ'' @
     [CHR 0xC0, CHR 0xC1, CHR 0xC2, CHR 0xC3, CHR 0xC4, CHR 0xC5, CHR 0xC6, CHR 0xC7,
      CHR 0xC8, CHR 0xC9, CHR 0xCA, CHR 0xCB, CHR 0xCC, CHR 0xCD, CHR 0xCE, CHR 0xCF,
      CHR 0xD0, CHR 0xD1, CHR 0xD2, CHR 0xD3, CHR 0xD4, CHR 0xD5, CHR 0xD6, CHR 0xD8,
      CHR 0xD9, CHR 0xDA, CHR 0xDB, CHR 0xDC, CHR 0xDD, CHR 0xDE]"

definition lower_letters :: string where
  "lower_letters =
     ''abcdefghijklmnopqrstuvwxyz'' @
     [CHR 0xE0, CHR 0xE1, CHR 0xE2, CHR 0xE3, CHR 0xE4, CHR 0xE5, CHR 0xE6, CHR 0xE7,
      CHR 0xE8, CHR 0xE9, CHR 0xEA, CHR 0xEB, CHR 0xEC, CHR 0xED, CHR 0xEE, CHR 0xEF,
      CHR 0xF0, CHR 0xF1, CHR 0xF2, CHR 0xF3, CHR 0xF4, CHR 0xF5, CHR 0xF6, CHR 0xF8,
      CHR 0xF9, CHR 0xFA, CHR 0xFB, CHR 0xFC, CHR 0xFD, CHR 0xFE]"

definition lower_char :: "char \<Rightarrow> char" where
  "lower_char c = (case map_of (zip upper_letters lower_letters) c of Some d \<Rightarrow> d | None \<Rightarrow> c)"

definition lower :: "string \<Rightarrow> string" where
  "lower s = map lower_char s"

text \<open>\<^verbatim>\<open>s.startswith(p)\<close>.\<close>

fun startswith :: "string \<Rightarrow> string \<Rightarrow> bool" where
  "startswith s [] = True"
| "startswith [] (p # ps) = False"
| "startswith (c # cs) (p # ps) = (c = p \<and> startswith cs ps)"

text \<open>\<^verbatim>\<open>sep.join(parts)\<close>.\<close>

fun join :: "string \<Rightarrow> string list \<Rightarrow> string" where
  "join sep [] = []"
| "join sep [x] = x"
| "join sep (x # y # ys) = x @ sep @ join sep (y # ys)"

text \<open>Decimal rendering of a non-negative integer, as an f-string prints it.\<close>

definition digit_char :: "nat \<Rightarrow> char" where
  "digit_char d = ''0123456789'' ! d"

fun str_nat :: "nat \<Rightarrow> string" where
  "str_nat n = (if n < 10 then [digit_char n] else str_nat (n div 10) @ [digit_char (n mod 10)])"

declare str_nat.simps [simp del]

text \<open>
  Python truthiness of a value that is \<^verbatim>\<open>None\<close> or a string (or \<^verbatim>\<open>None\<close> or a list):
  \<^verbatim>\<open>None\<close> and the empty sequence are false.
\<close>

definition truthy :: "'a list option \<Rightarrow> bool" where
  "truthy x = (case x of None \<Rightarrow> False | Some v \<Rightarrow> v \<noteq> [])"

section \<open>Fetched documents\<close>

text \<open>
  The HTML queries of \<^verbatim>\<open>download_story\<close> are the interface to the document: a fetched page
  is the record of what each query of the source returns on it.
\<close>

record anchor =
  a_text :: string  \<comment> \<open>\<^verbatim>\<open>link.get_text()\<close>\<close>
  href :: "string option"  \<comment> \<open>\<^verbatim>\<open>link["href"]\<close>; \<open>None\<close>: the attribute is missing (KeyError)\<close>

record story_div =
  series_info_span :: bool
    \<comment> \<open>\<^verbatim>\<open>story_div.find("span", class_="z_pm", string="Series Info")\<close> is not None\<close>
  z_t_link :: "anchor option"  \<comment> \<open>\<^verbatim>\<open>story_div.find("a", class_="z_t")\<close>\<close>
  z_pm_span :: "string option"
    \<comment> \<open>\<^verbatim>\<open>story_div.find("span", class_="z_pm")\<close>, its \<^verbatim>\<open>get_text()\<close>\<close>

record page =
  title_tag :: "string option"  \<comment> \<open>\<^verbatim>\<open>soup.find("h1", class_="headline")\<close>, its \<^verbatim>\<open>.text\<close>\<close>
  author_tag :: "string option"  \<comment> \<open>\<^verbatim>\<open>soup.find("a", class_="y_eU")\<close>, its \<^verbatim>\<open>.text\<close>\<close>
  breadcrumb :: "string list option"
    \<comment> \<open>the \<^verbatim>\<open>.text\<close> of each \<^verbatim>\<open>a.h_aZ\<close> inside \<^verbatim>\<open>div#BreadCrumbComponent\<close>;
        \<open>None\<close>: no such div\<close>
  tag_elements :: "string list"
    \<comment> \<open>the \<^verbatim>\<open>.text\<close> of each \<^verbatim>\<open>soup.find_all("a", class_="av_as av_r")\<close>\<close>
  desc_nodes :: "string list option"
    \<comment> \<open>the \<^verbatim>\<open>text_content()\<close> of each node of the XPath query;
        \<open>None\<close>: \<^verbatim>\<open>html.fromstring\<close> raises\<close>
  content_div :: "string list option"
    \<comment> \<open>\<^verbatim>\<open>paragraph.get_text(strip=True)\<close> for each \<^verbatim>\<open>p\<close> of \<^verbatim>\<open>div.aa_ht\<close>;
        \<open>None\<close>: no such div\<close>
  next_page_link :: "anchor option"
    \<comment> \<open>\<^verbatim>\<open>soup.find("a", class_="l_bJ", title="Next Page")\<close>\<close>
  series_panel :: "story_div list option"
    \<comment> \<open>the \<^verbatim>\<open>div.z_S\<close> of \<^verbatim>\<open>div.panel.z_r.z_R\<close>; \<open>None\<close>: no such panel\<close>

text \<open>
  What \<^verbatim>\<open>session.get\<close>, \<^verbatim>\<open>raise_for_status\<close> and \<^verbatim>\<open>BeautifulSoup\<close> give for a URL:
  a \<^verbatim>\<open>requests.RequestException\<close>, another exception while parsing, or the parsed page.
\<close>

datatype response = RequestException | ParseException | Response page

datatype error = NetworkError | ProcessingError

section \<open>The crawl state\<close>

text \<open>
  The local variables of \<^verbatim>\<open>download_story\<close>. \<open>fetch_log\<close> is a history variable: the
  URL and the page number of every \<^verbatim>\<open>session.get\<close>, in order.
\<close>

record crawl_state =
  story_title :: string
  story_author :: string
  story_category :: "string option"
  story_tags :: "string list"
  chapter_urls :: "string list"
  processed_urls :: "string set"
  series_title :: "string option"
  chapter_titles :: "string list"
  chapter_contents :: "string list"
  chapter_descriptions :: "string list"
  current_url :: "string option"
  current_page :: nat
  current_chapter :: nat
  current_chapter_content :: string
  fetch_log :: "(string \<times> nat) list"

definition initial_state :: "string \<Rightarrow> crawl_state" where
  "initial_state url =
     \<lparr>story_title = ''Unknown Title'', story_author = ''Unknown Author'',
      story_category = None, story_tags = [],
      chapter_urls = [url], processed_urls = {}, series_title = None,
      chapter_titles = [], chapter_contents = [], chapter_descriptions = [],
      current_url = None, current_page = 1, current_chapter = 0,
      current_chapter_content = [], fetch_log = []\<rparr>"

section \<open>One page\<close>

definition current_title_of :: "page \<Rightarrow> string" where
  "current_title_of p = (case title_tag p of Some t \<Rightarrow> strip t | None \<Rightarrow> ''Unknown Chapter'')"

definition extract_category :: "page \<Rightarrow> string option \<Rightarrow> string option" where
  "extract_category p old =
     (case breadcrumb p of
        None \<Rightarrow> old
      | Some category_links \<Rightarrow>
          if 2 \<le> length category_links then
            (let c = strip (category_links ! 1)
             in if startswith (lower c) ''inc'' then Some ''I/T'' else Some c)
          else old)"

definition kept_tags :: "page \<Rightarrow> string list" where
  "kept_tags p = filter (\<lambda>t. \<not> startswith (lower t) ''inc'') (map strip (tag_elements p))"

definition extract_tags :: "page \<Rightarrow> string option \<Rightarrow> string list" where
  "extract_tags p category =
     (case category of
        None \<Rightarrow> kept_tags p
      | Some c \<Rightarrow> if c \<noteq> [] \<and> c \<notin> set (kept_tags p) then c # kept_tags p else kept_tags p)"

text \<open>The block under \<^verbatim>\<open>if current_chapter == 1\<close>.\<close>

definition story_metadata :: "page \<Rightarrow> crawl_state \<Rightarrow> crawl_state" where
  "story_metadata p s =
     (let category = extract_category p (story_category s)
      in s\<lparr>story_title := current_title_of p,
           story_author := (case author_tag p of Some a \<Rightarrow> strip a | None \<Rightarrow> story_author s),
           story_category := category,
           story_tags := extract_tags p category\<rparr>)"

text \<open>The block under \<^verbatim>\<open>if current_page == 1\<close>.\<close>

definition first_page :: "page \<Rightarrow> crawl_state \<Rightarrow> error + crawl_state" where
  "first_page p s =
     (let s1 = (if current_chapter s = 1 then story_metadata p s else s)
      in case desc_nodes p of
           None \<Rightarrow> Inl ProcessingError
         | Some nodes \<Rightarrow>
             Inr (s1\<lparr>chapter_descriptions :=
                       chapter_descriptions s1 @ [case nodes of [] \<Rightarrow> [] | d # _ \<Rightarrow> strip d]\<rparr>))"

text \<open>The block "Story content".\<close>

definition extract_content :: "page \<Rightarrow> crawl_state \<Rightarrow> crawl_state" where
  "extract_content p s =
     (case content_div p of
        None \<Rightarrow> s
      | Some paragraphs \<Rightarrow>
          s\<lparr>chapter_titles :=
              (if current_page s = 1 then chapter_titles s @ [current_title_of p]
               else chapter_titles s),
            current_chapter_content :=
              current_chapter_content s @ concat (map (\<lambda>q. q @ [nl, nl]) paragraphs)\<rparr>)"

definition absolute_url :: "string \<Rightarrow> string" where
  "absolute_url u = (if startswith u ''http'' then u else ''https://www.literotica.com'' @ u)"

text \<open>The first loop over the series panel: the link of the first "Series Info" entry that has one.\<close>

fun find_series_title :: "story_div list \<Rightarrow> string option" where
  "find_series_title [] = None"
| "find_series_title (d # ds) =
     (if series_info_span d then
        (case z_t_link d of
           Some link \<Rightarrow> Some (strip (a_text link))
         | None \<Rightarrow> find_series_title ds)
      else find_series_title ds)"

text \<open>The second loop: the URL of the first entry with a link whose first label is "Next Part".\<close>

fun find_next_part :: "story_div list \<Rightarrow> error + string option" where
  "find_next_part [] = Inr None"
| "find_next_part (d # ds) =
     (case z_t_link d of
        None \<Rightarrow> find_next_part ds
      | Some link \<Rightarrow>
          (case z_pm_span d of
             None \<Rightarrow> find_next_part ds
           | Some t \<Rightarrow>
               if strip t = ''Next Part'' then
                 (case href link of
                    None \<Rightarrow> Inl ProcessingError
                  | Some h \<Rightarrow> Inr (Some (absolute_url h)))
               else find_next_part ds))"

definition capture_series_title :: "story_div list \<Rightarrow> crawl_state \<Rightarrow> crawl_state" where
  "capture_series_title story_links s =
     (if \<not> truthy (series_title s) then
        (case find_series_title story_links of
           Some t \<Rightarrow> s\<lparr>series_title := Some t, story_title := t\<rparr>
         | None \<Rightarrow> s)
      else s)"

text \<open>The \<^verbatim>\<open>else\<close> branch of "Next page / next part": the chapter ends on this page.\<close>

definition end_of_chapter :: "page \<Rightarrow> crawl_state \<Rightarrow> error + crawl_state" where
  "end_of_chapter p s =
     (let s1 = s\<lparr>chapter_contents := chapter_contents s @ [current_chapter_content s]\<rparr>
      in case series_panel p of
           None \<Rightarrow> Inr (s1\<lparr>current_url := None, current_page := 1\<rparr>)
         | Some story_links \<Rightarrow>
             (let s2 = capture_series_title story_links s1
              in case find_next_part story_links of
                   Inl e \<Rightarrow> Inl e
                 | Inr None \<Rightarrow> Inr (s2\<lparr>current_url := None, current_page := 1\<rparr>)
                 | Inr (Some next_url) \<Rightarrow>
                     Inr ((if next_url \<notin> processed_urls s2
                           then s2\<lparr>chapter_urls := chapter_urls s2 @ [next_url]\<rparr>
                           else s2)\<lparr>current_url := None, current_page := 1\<rparr>)))"

text \<open>The body of the inner \<^verbatim>\<open>try\<close>, after the page has been fetched and parsed.\<close>

definition process_page :: "page \<Rightarrow> crawl_state \<Rightarrow> error + crawl_state" where
  "process_page p s =
     (case (if current_page s = 1 then first_page p s else Inr s) of
        Inl e \<Rightarrow> Inl e
      | Inr s1 \<Rightarrow>
          (let s2 = extract_content p s1
           in case next_page_link p of
                Some link \<Rightarrow>
                  (case href link of
                     None \<Rightarrow> Inl ProcessingError
                   | Some h \<Rightarrow>
                       Inr (s2\<lparr>current_url := Some (absolute_url h),
                               current_page := current_page s2 + 1\<rparr>))
              | None \<Rightarrow> end_of_chapter p s2))"

section \<open>The two loops\<close>

text \<open>
  One step is one test of a loop condition followed by one pass through a loop body:
  inside a chapter (\<^verbatim>\<open>while current_url\<close>) a page is fetched and processed; between
  chapters (\<^verbatim>\<open>while chapter_urls\<close>) the next URL is popped. \<open>Abort\<close> is one of the
  two \<^verbatim>\<open>except\<close> clauses, \<open>Halt\<close> the empty queue.
\<close>

datatype step_result = Next crawl_state | Abort error crawl_state | Halt crawl_state

fun state_of :: "step_result \<Rightarrow> crawl_state" where
  "state_of (Next s) = s"
| "state_of (Abort e s) = s"
| "state_of (Halt s) = s"

definition fetch_page :: "(string \<Rightarrow> response) \<Rightarrow> string \<Rightarrow> crawl_state \<Rightarrow> step_result" where
  "fetch_page web u s =
     (let s0 = s\<lparr>fetch_log := fetch_log s @ [(u, current_page s)]\<rparr>
      in case web u of
           RequestException \<Rightarrow> Abort NetworkError s0
         | ParseException \<Rightarrow> Abort ProcessingError s0
         | Response p \<Rightarrow>
             (case process_page p s0 of
                Inl e \<Rightarrow> Abort e s0
              | Inr s' \<Rightarrow> Next s'))"

definition next_chapter :: "crawl_state \<Rightarrow> step_result" where
  "next_chapter s =
     (case chapter_urls s of
        [] \<Rightarrow> Halt s
      | u # rest \<Rightarrow>
          if u \<in> processed_urls s then Next (s\<lparr>chapter_urls := rest\<rparr>)
          else Next (s\<lparr>chapter_urls := rest,
                       processed_urls := insert u (processed_urls s),
                       current_chapter := length (chapter_contents s) + 1,
                       current_chapter_content := [],
                       current_url := Some u\<rparr>))"

definition step :: "(string \<Rightarrow> response) \<Rightarrow> crawl_state \<Rightarrow> step_result" where
  "step web s =
     (case current_url s of
        None \<Rightarrow> next_chapter s
      | Some u \<Rightarrow> if u \<noteq> [] then fetch_page web u s else next_chapter s)"

text \<open>
  The loops may run forever (a chain of next-page links can be cyclic), so the crawl is
  run with fuel: \<open>crawl n\<close> makes at most \<open>n\<close> steps and answers \<open>Next\<close> when it is still
  running.
\<close>

fun crawl :: "nat \<Rightarrow> (string \<Rightarrow> response) \<Rightarrow> crawl_state \<Rightarrow> step_result" where
  "crawl 0 web s = Next s"
| "crawl (Suc n) web s =
     (case step web s of
        Next s' \<Rightarrow> crawl n web s'
      | Abort e s' \<Rightarrow> Abort e s'
      | Halt s' \<Rightarrow> Halt s')"

section \<open>The result\<close>

text \<open>"Combine all chapters into a single story string".\<close>

fun combine_chapters :: "nat \<Rightarrow> (string \<times> string) list \<Rightarrow> string \<Rightarrow> string" where
  "combine_chapters i [] story_content = story_content"
| "combine_chapters i ((title, content) # rest) story_content =
     combine_chapters (Suc i) rest
       (story_content @ [nl, nl] @ ''Chapter '' @ str_nat i @ '': '' @ title @ [nl, nl] @ content)"

text \<open>
  The returned 7-tuple. Each component is \<^verbatim>\<open>None\<close> or a value; the fourth one, the
  category, may be \<^verbatim>\<open>None\<close> in a successful result too.
\<close>

type_synonym story_result =
  "string option \<times> string option \<times> string option \<times> string option \<times>
   string list option \<times> string list option \<times> string list option"

definition failure :: story_result where
  "failure = (None, None, None, None, None, None, None)"

definition success :: "crawl_state \<Rightarrow> story_result" where
  "success s =
     (Some (combine_chapters 1 (zip (chapter_titles s) (chapter_contents s)) []),
      Some (story_title s), Some (story_author s), story_category s, Some (story_tags s),
      Some (chapter_titles s), Some (chapter_descriptions s))"

text \<open>
  \<open>None\<close>: the crawl has not returned within the fuel. \<^verbatim>\<open>get_session\<close> is taken to
  succeed, and logging and the pause between two fetches are left out.
\<close>

definition download_story :: "nat \<Rightarrow> (string \<Rightarrow> response) \<Rightarrow> string \<Rightarrow> story_result option" where
  "download_story fuel web url =
     (case crawl fuel web (initial_state url) of
        Next s \<Rightarrow> None
      | Abort e s \<Rightarrow> Some failure
      | Halt s \<Rightarrow> Some (success s))"

section \<open>Failing fetches\<close>

text \<open>
  When the processing of a fetched page raises: \<^verbatim>\<open>html.fromstring\<close> on a first page,
  or a link that is followed and has no \<^verbatim>\<open>href\<close>. \<open>k\<close> is the page number.
\<close>

definition page_raises :: "page \<Rightarrow> nat \<Rightarrow> bool" where
  "page_raises p k =
     ((k = 1 \<and> desc_nodes p = None) \<or>
      (case next_page_link p of
         Some link \<Rightarrow> href link = None
       | None \<Rightarrow>
           (case series_panel p of
              None \<Rightarrow> False
            | Some story_links \<Rightarrow> find_next_part story_links = Inl ProcessingError)))"

definition fetch_fails :: "(string \<Rightarrow> response) \<Rightarrow> string \<times> nat \<Rightarrow> bool" where
  "fetch_fails web e =
     (case web (fst e) of
        RequestException \<Rightarrow> True
      | ParseException \<Rightarrow> True
      | Response p \<Rightarrow> page_raises p (snd e))"

text \<open>The history has no failed fetch.\<close>

definition no_failed_fetch :: "(string \<Rightarrow> response) \<Rightarrow> crawl_state \<Rightarrow> bool" where
  "no_failed_fetch web s = (\<forall>e \<in> set (fetch_log s). \<not> fetch_fails web e)"

section \<open>Chapter starts in the history\<close>

text \<open>The condition of the page loop, \<^verbatim>\<open>while current_url\<close>.\<close>

definition in_chapter :: "crawl_state \<Rightarrow> bool" where
  "in_chapter s = truthy (current_url s)"

text \<open>
  \<open>current_page\<close> is 1 exactly when the first page of a chapter is fetched, so the URLs
  fetched as a chapter start are the entries of the history with page number 1.
\<close>

definition chapter_starts :: "(string \<times> nat) list \<Rightarrow> string list" where
  "chapter_starts log = map fst (filter (\<lambda>e. snd e = 1) log)"

text \<open>
  The chapter starts fetched so far are distinct and visited; the chapter that has just
  been popped is visited and not fetched yet.
\<close>

definition starts_ok :: "crawl_state \<Rightarrow> bool" where
  "starts_ok s =
     (distinct (chapter_starts (fetch_log s)) \<and>
      set (chapter_starts (fetch_log s)) \<subseteq> processed_urls s)"

definition starts_inv :: "crawl_state \<Rightarrow> bool" where
  "starts_inv s =
     (starts_ok s \<and> 1 \<le> current_page s \<and>
      (if in_chapter s then
         (current_page s = 1 \<longrightarrow>
            (\<exists>u. current_url s = Some u \<and> u \<in> processed_urls s \<and>
                 u \<notin> set (chapter_starts (fetch_log s))))
       else current_page s = 1))"

fun result_inv :: "step_result \<Rightarrow> bool" where
  "result_inv (Next s) = starts_inv s"
| "result_inv (Halt s) = starts_inv s"
| "result_inv (Abort e s) = starts_ok s"

text \<open>Example documents: a page on which every query finds nothing, and a series entry.\<close>

definition empty_page :: page where
  "empty_page =
     \<lparr>title_tag = None, author_tag = None, breadcrumb = None, tag_elements = [],
      desc_nodes = Some [], content_div = None, next_page_link = None, series_panel = None\<rparr>"

definition next_part :: "string \<Rightarrow> story_div" where
  "next_part u =
     \<lparr>series_info_span = False, z_t_link = Some \<lparr>a_text = ''next'', href = Some u\<rparr>,
      z_pm_span = Some ''Next Part''\<rparr>"

text \<open>
  Chapter \<open>a\<close> has one page and names \<open>b\<close> as its next part; the first page of chapter
  \<open>b\<close> names \<open>a\<close> as its next page.
\<close>

definition web_revisit :: "string \<Rightarrow> response" where
  "web_revisit u =
     (if u = ''http://a''
      then Response (empty_page\<lparr>title_tag := Some ''A'', content_div := Some [''pa''],
             series_panel := Some [next_part ''http://b'']\<rparr>)
      else if u = ''http://b''
      then Response (empty_page\<lparr>title_tag := Some ''B'', content_div := Some [''pb''],
             next_page_link := Some \<lparr>a_text = ''n'', href = Some ''http://a''\<rparr>\<rparr>)
      else RequestException)"

text \<open>
  A state between two chapters whose queue holds a visited URL, and a state inside
  chapter \<open>b\<close> whose last page names the visited \<open>a\<close> as the next part.
\<close>

definition visited_state :: crawl_state where
  "visited_state = (initial_state ''http://a'')\<lparr>processed_urls := {''http://a''}\<rparr>"

definition last_page_state :: crawl_state where
  "last_page_state =
     (initial_state ''http://a'')
       \<lparr>chapter_urls := [], processed_urls := {''http://a'', ''http://b''},
        current_url := Some ''http://b'', current_page := 2, current_chapter := 2\<rparr>"

definition web_cycle :: "string \<Rightarrow> response" where
  "web_cycle u =
     (if u = ''http://b''
      then Response (empty_page\<lparr>series_panel := Some [next_part ''http://a'']\<rparr>)
      else RequestException)"

section \<open>The pages of a chapter\<close>

text \<open>
  The pages of one chapter: \<open>chapter_pages web u pages\<close> holds when \<open>pages\<close> are the
  documents reached from \<open>u\<close> by following next-page links up to the first page that has
  none.
\<close>

fun chapter_pages :: "(string \<Rightarrow> response) \<Rightarrow> string \<Rightarrow> page list \<Rightarrow> bool" where
  "chapter_pages web u [] = False"
| "chapter_pages web u [p] = (web u = Response p \<and> next_page_link p = None)"
| "chapter_pages web u (p # q # ps) =
     (web u = Response p \<and>
      (case next_page_link p of
         None \<Rightarrow> False
       | Some link \<Rightarrow>
           (case href link of
              None \<Rightarrow> False
            | Some h \<Rightarrow> chapter_pages web (absolute_url h) (q # ps))))"

definition page_paragraphs :: "page \<Rightarrow> string list" where
  "page_paragraphs p = (case content_div p of None \<Rightarrow> [] | Some paragraphs \<Rightarrow> paragraphs)"

text \<open>Every paragraph of the chapter, in page order, each followed by a blank line.\<close>

definition chapter_body :: "page list \<Rightarrow> string" where
  "chapter_body pages = concat (map (\<lambda>q. q @ [nl, nl]) (concat (map page_paragraphs pages)))"

text \<open>The body as claim C3 words it: the paragraphs with blank lines between them.\<close>

definition separated_body :: "page list \<Rightarrow> string" where
  "separated_body pages = join [nl, nl] (concat (map page_paragraphs pages))"

text \<open>A chapter of one page with one paragraph, and a chapter of two pages.\<close>

definition one_paragraph_page :: page where
  "one_paragraph_page = empty_page\<lparr>title_tag := Some ''A'', content_div := Some [''x'']\<rparr>"

definition web_one_page :: "string \<Rightarrow> response" where
  "web_one_page u = (if u = ''http://a'' then Response one_paragraph_page else RequestException)"

definition two_pages :: "page list" where
  "two_pages =
     [empty_page\<lparr>title_tag := Some ''A'', content_div := Some [''p1'', ''p2''],
                  next_page_link := Some \<lparr>a_text = ''2'', href = Some ''/s/a?page=2''\<rparr>\<rparr>,
      empty_page\<lparr>content_div := Some [''p3'']\<rparr>]"

definition web_two_pages :: "string \<Rightarrow> response" where
  "web_two_pages u =
     (if u = ''http://a'' then Response (two_pages ! 0)
      else if u = ''https://www.literotica.com/s/a?page=2'' then Response (two_pages ! 1)
      else RequestException)"

section \<open>The series title and the story title\<close>

text \<open>A series entry of the panel: the "Series Info" label and the link with the title.\<close>

definition series_info :: "string \<Rightarrow> story_div" where
  "series_info t =
     \<lparr>series_info_span = True, z_t_link = Some \<lparr>a_text = t, href = Some ''/series/se''\<rparr>,
      z_pm_span = Some ''Series Info''\<rparr>"

text \<open>Inside a chapter, \<open>current_chapter\<close> is the number of the chapter being read.\<close>

definition chapter_numbered :: "crawl_state \<Rightarrow> bool" where
  "chapter_numbered s =
     (in_chapter s \<longrightarrow> current_chapter s = length (chapter_contents s) + 1)"

text \<open>
  The non-empty series title \<open>t\<close> has been captured: it is the story title, and a
  chapter has been completed, so the story metadata of chapter 1 will not be read again.
\<close>

definition title_fixed :: "string \<Rightarrow> crawl_state \<Rightarrow> bool" where
  "title_fixed t s =
     (series_title s = Some t \<and> t \<noteq> [] \<and> story_title s = t \<and> chapter_contents s \<noteq> [])"

definition series_inv :: "crawl_state \<Rightarrow> bool" where
  "series_inv s =
     (chapter_numbered s \<and>
      (case series_title s of None \<Rightarrow> True | Some t \<Rightarrow> t = [] \<or> title_fixed t s))"

text \<open>
  Two chapters with a series panel each. In \<open>web_blank_series\<close> the series link of the
  first chapter has a blank text; in \<open>web_series\<close> both chapters name a series.
\<close>

definition web_blank_series :: "string \<Rightarrow> response" where
  "web_blank_series u =
     (if u = ''http://a''
      then Response (empty_page\<lparr>title_tag := Some ''Part 1'', content_div := Some [''pa''],
             series_panel := Some [series_info '' '', next_part ''http://b'']\<rparr>)
      else if u = ''http://b''
      then Response (empty_page\<lparr>title_tag := Some ''Part 2'', content_div := Some [''pb''],
             series_panel := Some [series_info ''Saga'']\<rparr>)
      else RequestException)"

definition web_series :: "string \<Rightarrow> response" where
  "web_series u =
     (if u = ''http://a''
      then Response (empty_page\<lparr>title_tag := Some ''Part 1'', content_div := Some [''pa''],
             series_panel := Some [series_info ''Saga'', next_part ''http://b'']\<rparr>)
      else if u = ''http://b''
      then Response (empty_page\<lparr>title_tag := Some ''Part 2'', content_div := Some [''pb''],
             series_panel := Some [series_info ''Other'']\<rparr>)
      else RequestException)"

section \<open>The document packager\<close>

text \<open>
  \<^verbatim>\<open>s.split(sep)\<close> for a separator that is not empty: the pieces between the
  occurrences of \<open>sep\<close>, found from left to right. \<open>piece\<close> collects the characters
  read since the last separator.
\<close>

function split_from :: "string \<Rightarrow> string \<Rightarrow> string \<Rightarrow> string list" where
  "split_from sep piece [] = [piece]"
| "split_from sep piece (c # cs) =
     (if sep \<noteq> [] \<and> startswith (c # cs) sep
      then piece # split_from sep [] (drop (length sep) (c # cs))
      else split_from sep (piece @ [c]) cs)"
  by pat_completeness auto
termination
  by (relation "measure (\<lambda>(sep, piece, rest). length rest)") auto

definition str_split :: "string \<Rightarrow> string \<Rightarrow> string list" where
  "str_split s sep = split_from sep [] s"

text \<open>\<^verbatim>\<open>s.find(sub)\<close>; \<open>None\<close> is the answer \<^verbatim>\<open>-1\<close>.\<close>

fun str_find :: "string \<Rightarrow> string \<Rightarrow> nat option" where
  "str_find [] sub = (if sub = [] then Some 0 else None)"
| "str_find (c # cs) sub =
     (if startswith (c # cs) sub then Some 0 else map_option Suc (str_find cs sub))"

definition story_css :: string where
  "story_css =
     [nl] @ ''        <style>'' @ [nl] @
     ''            body { margin: 1em; padding: 0 1em; }'' @ [nl] @
     ''            p   { margin: 1.5em 0; line-height: 1.7; font-size: 1.1em; }'' @ [nl] @
     ''            h1  { margin: 2em 0 1em 0; text-align: center; }'' @ [nl] @
     ''        </style>'' @ [nl] @ ''    ''"

definition format_story_content :: "string \<Rightarrow> string" where
  "format_story_content content =
     (let paragraphs = str_split content [nl, nl];
          formatted_paragraphs =
            map (\<lambda>p. ''<p>'' @ strip p @ ''</p>'') (filter (\<lambda>p. strip p \<noteq> []) paragraphs)
      in story_css @ join [nl] formatted_paragraphs)"

definition metadata_css :: string where
  "metadata_css =
     [nl] @ ''        <style>'' @ [nl] @
     ''            body { margin: 1em; padding: 0 1em; }'' @ [nl] @
     ''            h1  { margin: 2em 0 1em 0; text-align: center; }'' @ [nl] @
     ''            .metadata { margin: 1.5em 0; line-height: 1.7; font-size: 1.1em; }'' @ [nl] @
     ''            .metadata-item { margin: 1em 0; }'' @ [nl] @
     ''            .metadata-label { font-weight: bold; margin-right: 0.5em; }'' @ [nl] @
     ''        </style>'' @ [nl] @ ''    ''"

definition format_metadata_content :: "string option \<Rightarrow> string list option \<Rightarrow> string" where
  "format_metadata_content category tags =
     metadata_css @ ''<h1>Story Information</h1><div class='' @ [CHR 0x27] @ ''metadata'' @
       [CHR 0x27] @ ''>'' @
     (case category of
        Some c \<Rightarrow>
          if c \<noteq> [] then
            ''<div class='' @ [CHR 0x27] @ ''metadata-item'' @ [CHR 0x27] @ ''><span class='' @
            [CHR 0x27] @ ''metadata-label'' @ [CHR 0x27] @ ''>Category: </span>'' @ c @ ''</div>''
          else []
      | None \<Rightarrow> []) @
     (case tags of
        Some ts \<Rightarrow>
          if ts \<noteq> [] then
            ''<div class='' @ [CHR 0x27] @ ''metadata-item'' @ [CHR 0x27] @ ''><span class='' @
            [CHR 0x27] @ ''metadata-label'' @ [CHR 0x27] @ ''>Tags: </span>'' @ join '', '' ts @
            ''</div>''
          else []
      | None \<Rightarrow> []) @
     ''</div>''"

text \<open>
  A page of the book (\<^verbatim>\<open>epub.EpubHtml\<close>) and the book as far as \<^verbatim>\<open>create_epub_file\<close>
  fills it: title, author, the \<^verbatim>\<open>DC subject\<close> entries, the \<^verbatim>\<open>DC description\<close> entry
  and the pages of the spine. The file system, the cover image and the identifier are
  left out.
\<close>

record epub_item =
  item_title :: string
  file_name :: string
  item_content :: string

record epub_book =
  book_title :: string
  book_author :: string
  subjects :: "string list"
  description :: "string option"
  chapters :: "epub_item list"

datatype packaging_error = NoValidChapters

text \<open>"Optional metadata": the category, then every tag.\<close>

definition epub_subjects :: "string option \<Rightarrow> string list option \<Rightarrow> string list" where
  "epub_subjects category tags =
     (case category of Some c \<Rightarrow> if c \<noteq> [] then [c] else [] | None \<Rightarrow> []) @
     (case tags of Some ts \<Rightarrow> ts | None \<Rightarrow> [])"

text \<open>"Description metadata": the loop over \<^verbatim>\<open>zip(chapter_titles, chapter_descriptions)\<close>.\<close>

fun description_parts :: "(string \<times> string) list \<Rightarrow> string list \<Rightarrow> string list" where
  "description_parts [] parts = parts"
| "description_parts ((t, d) # rest) parts =
     description_parts rest (if d \<noteq> [] then parts @ [t @ '': '' @ d] else parts)"

definition epub_description :: "string list option \<Rightarrow> string list option \<Rightarrow> string option" where
  "epub_description titles descriptions =
     (case titles of
        None \<Rightarrow> None
      | Some ts \<Rightarrow>
          (case descriptions of
             None \<Rightarrow> None
           | Some ds \<Rightarrow>
               if ts \<noteq> [] \<and> ds \<noteq> [] then
                 (let parts = description_parts (zip ts ds) []
                  in if parts \<noteq> [] then Some (join [nl] parts) else None)
               else None))"

text \<open>
  The three \<^verbatim>\<open>try\<close> blocks that add pages. \<open>builds f\<close> says that the library calls for
  the page with file name \<open>f\<close> raise nothing; when they raise, the error is logged and the
  page is left out.
\<close>

definition metadata_chapter ::
  "(string \<Rightarrow> bool) \<Rightarrow> string option \<Rightarrow> string list option \<Rightarrow> epub_item list" where
  "metadata_chapter builds category tags =
     (if (truthy category \<or> truthy tags) \<and> builds ''metadata.xhtml'' then
        [\<lparr>item_title = ''Story Information'', file_name = ''metadata.xhtml'',
          item_content = format_metadata_content category tags\<rparr>]
      else [])"

definition intro_chapter :: "(string \<Rightarrow> bool) \<Rightarrow> string \<Rightarrow> epub_item list" where
  "intro_chapter builds intro_text =
     (if strip intro_text \<noteq> [] \<and> builds ''intro.xhtml'' then
        [\<lparr>item_title = ''Introduction'', file_name = ''intro.xhtml'',
          item_content = ''<h1>Introduction</h1>'' @ format_story_content intro_text\<rparr>]
      else [])"

definition chapter_file :: "nat \<Rightarrow> string" where
  "chapter_file i = ''chapter_'' @ str_nat i @ ''.xhtml''"

definition main_chapter :: "nat \<Rightarrow> string \<Rightarrow> epub_item" where
  "main_chapter i chapter_text =
     (let (chapter_title, chapter_content) =
            (case str_find chapter_text [nl, nl] of
               None \<Rightarrow> (''Chapter '' @ str_nat i, chapter_text)
             | Some title_end \<Rightarrow>
                 (''Chapter '' @ take title_end chapter_text,
                  strip (drop title_end chapter_text)))
      in \<lparr>item_title = chapter_title, file_name = chapter_file i,
           item_content = ''<h1>'' @ chapter_title @ ''</h1>'' @
             format_story_content chapter_content\<rparr>)"

fun main_chapters :: "(string \<Rightarrow> bool) \<Rightarrow> nat \<Rightarrow> string list \<Rightarrow> epub_item list" where
  "main_chapters builds i [] = []"
| "main_chapters builds i (chapter_text # rest) =
     (if builds (chapter_file i) then [main_chapter i chapter_text] else []) @
     main_chapters builds (Suc i) rest"

definition chapter_separator :: string where
  "chapter_separator = [nl, nl] @ ''Chapter ''"

definition create_epub_file ::
  "(string \<Rightarrow> bool) \<Rightarrow> string \<Rightarrow> string \<Rightarrow> string \<Rightarrow> string list option \<Rightarrow>
   string list option \<Rightarrow> string option \<Rightarrow> string list option \<Rightarrow> packaging_error + epub_book" where
  "create_epub_file builds title author content titles
     descriptions category tags =
     (let chapter_texts = str_split content chapter_separator;
          pages = metadata_chapter builds category tags @
                  intro_chapter builds (hd chapter_texts) @
                  main_chapters builds 1 (tl chapter_texts)
      in if pages = [] then Inl NoValidChapters
         else Inr \<lparr>book_title = title, book_author = author,
                    subjects = epub_subjects category tags,
                    description = epub_description titles descriptions,
                    chapters = pages\<rparr>)"

text \<open>
  The lines of the description as claim C8 words them: one line "title: description" for
  every chapter whose description is not empty, in chapter order.
\<close>

definition description_lines :: "string list \<Rightarrow> string list \<Rightarrow> string list" where
  "description_lines ts ds =
     map (\<lambda>i. ts ! i @ '': '' @ ds ! i) (filter (\<lambda>i. ds ! i \<noteq> []) [0..<length ts])"

text \<open>
  The story text of two chapters, as \<^verbatim>\<open>download_story\<close> combines it.
\<close>

definition two_chapter_story :: string where
  "two_chapter_story =
     [nl, nl] @ ''Chapter 1: Ch1'' @ [nl, nl] @ ''one'' @ [nl, nl] @
     [nl, nl] @ ''Chapter 2: Ch2'' @ [nl, nl] @ ''two'' @ [nl, nl]"

text \<open>
  The chapters of a story text, as \<^verbatim>\<open>create_epub_file\<close> finds them
  (\<^verbatim>\<open>chapter_texts[1:]\<close>): the pieces that follow a chapter heading.
\<close>

definition story_chapters :: "string \<Rightarrow> string list" where
  "story_chapters content = tl (str_split content chapter_separator)"

text \<open>
  The file names of the pages \<^verbatim>\<open>create_epub_file\<close> tries to append to its list
  \<^verbatim>\<open>chapters\<close>. The list holds more than the chapters of the story: the metadata page
  when there is a category or a tag, the introduction when the text before the first
  chapter heading is not blank, and then one page for every chapter of the story text.
\<close>

definition candidate_files :: "string \<Rightarrow> string option \<Rightarrow> string list option \<Rightarrow> string list" where
  "candidate_files content category tags =
     (if truthy category \<or> truthy tags then [''metadata.xhtml''] else []) @
     (if strip (hd (str_split content chapter_separator)) \<noteq> [] then [''intro.xhtml''] else []) @
     map chapter_file [1..<length (str_split content chapter_separator)]"

section \<open>Counting chapters\<close>

text \<open>The description captured on a first page (\<^verbatim>\<open>chapter_description\<close>).\<close>

definition description_of :: "page \<Rightarrow> string" where
  "description_of p = (case desc_nodes p of Some (d # _) \<Rightarrow> strip d | _ \<Rightarrow> [])"

text \<open>
  The lengths of the lists between two steps. The chapter whose first page has not been
  fetched yet is in \<open>processed_urls\<close> and has no description.
\<close>

definition counts_inv :: "crawl_state \<Rightarrow> bool" where
  "counts_inv s =
     (length (chapter_titles s) \<le> length (chapter_descriptions s) \<and>
      finite (processed_urls s) \<and> [] \<notin> set (chapter_urls s) \<and>
      (if in_chapter s then
         1 \<le> current_page s \<and>
         card (processed_urls s) =
           length (chapter_descriptions s) + (if current_page s = 1 then 1 else 0)
       else current_page s = 1 \<and>
         card (processed_urls s) = length (chapter_descriptions s)))"

text \<open>
  A description for every chapter start of the history; when a fetch has failed, the
  failed one may be a chapter start without a description.
\<close>

fun descriptions_counted :: "step_result \<Rightarrow> bool" where
  "descriptions_counted (Next s) =
     (length (chapter_descriptions s) = length (chapter_starts (fetch_log s)))"
| "descriptions_counted (Halt s) =
     (length (chapter_descriptions s) = length (chapter_starts (fetch_log s)))"
| "descriptions_counted (Abort e s) =
     (length (chapter_descriptions s) \<le> length (chapter_starts (fetch_log s)))"

text \<open>
  Two chapters of one page each; the page of the first one has no content block
  (\<^verbatim>\<open>div.aa_ht\<close>).
\<close>

definition web_gap :: "string \<Rightarrow> response" where
  "web_gap u =
     (if u = ''http://a''
      then Response (empty_page\<lparr>title_tag := Some ''A'', desc_nodes := Some [''dA''],
             series_panel := Some [next_part ''http://b'']\<rparr>)
      else if u = ''http://b''
      then Response (empty_page\<lparr>title_tag := Some ''B'', desc_nodes := Some [''dB''],
             content_div := Some [''pb'']\<rparr>)
      else RequestException)"

section \<open>Example first pages\<close>

text \<open>A first page with the category "Incest/Taboo" and three tags.\<close>

definition taboo_page :: page where
  "taboo_page =
     empty_page\<lparr>title_tag := Some ''T'', breadcrumb := Some [''Home'', ''Incest/Taboo''],
                 tag_elements := [''incest'', '' romance '', ''INCubus'']\<rparr>"

definition web_taboo :: "string \<Rightarrow> response" where
  "web_taboo u = (if u = ''http://a'' then Response taboo_page else RequestException)"

text \<open>A first page that lists the tag "love" twice.\<close>

definition repeated_tag_page :: page where
  "repeated_tag_page =
     empty_page\<lparr>title_tag := Some ''T'', breadcrumb := Some [''Home'', ''Romance''],
                 tag_elements := [''love'', ''love''], content_div := Some [''p'']\<rparr>"

definition web_repeated_tag :: "string \<Rightarrow> response" where
  "web_repeated_tag u =
     (if u = ''http://a'' then Response repeated_tag_page else RequestException)"

section \<open>The tag list of a result\<close>

text \<open>
  The story metadata has been read: the first chapter is over, or one of its later
  pages is being read, so the block under \<^verbatim>\<open>if current_chapter == 1\<close> does not run again.
\<close>

definition metadata_done :: "crawl_state \<Rightarrow> bool" where
  "metadata_done s =
     (chapter_numbered s \<and>
      (chapter_contents s \<noteq> [] \<or> (in_chapter s \<and> 2 \<le> current_page s)))"

text \<open>The tag list the source builds from a category and the tags kept from the page.\<close>

definition tags_with_category :: "string option \<Rightarrow> string list \<Rightarrow> string list" where
  "tags_with_category category kept =
     (case category of
        None \<Rightarrow> kept
      | Some c \<Rightarrow> if c \<noteq> [] \<and> c \<notin> set kept then c # kept else kept)"

section \<open>Properties\<close>

subsection \<open>Frame conditions\<close>

text \<open>What each block of the loop body reads and writes.\<close>

lemma first_page_frame:
  assumes "first_page p s = Inr s'"
  shows "processed_urls s' = processed_urls s" "chapter_urls s' = chapter_urls s"
    "current_url s' = current_url s" "current_page s' = current_page s"
    "fetch_log s' = fetch_log s" "chapter_contents s' = chapter_contents s"
    "current_chapter_content s' = current_chapter_content s"
    "current_chapter s' = current_chapter s" "series_title s' = series_title s"
    "chapter_titles s' = chapter_titles s"
  using assms
  by (auto simp: first_page_def story_metadata_def Let_def split: option.splits if_splits)

lemma extract_content_frame:
  "processed_urls (extract_content p s) = processed_urls s"
  "chapter_urls (extract_content p s) = chapter_urls s"
  "current_url (extract_content p s) = current_url s"
  "current_page (extract_content p s) = current_page s"
  "fetch_log (extract_content p s) = fetch_log s"
  "chapter_contents (extract_content p s) = chapter_contents s"
  "current_chapter (extract_content p s) = current_chapter s"
  "series_title (extract_content p s) = series_title s"
  "story_title (extract_content p s) = story_title s"
  "chapter_descriptions (extract_content p s) = chapter_descriptions s"
  by (simp_all add: extract_content_def split: option.splits)

lemma capture_series_title_frame:
  "processed_urls (capture_series_title ds s) = processed_urls s"
  "chapter_urls (capture_series_title ds s) = chapter_urls s"
  "current_url (capture_series_title ds s) = current_url s"
  "current_page (capture_series_title ds s) = current_page s"
  "fetch_log (capture_series_title ds s) = fetch_log s"
  "chapter_contents (capture_series_title ds s) = chapter_contents s"
  "current_chapter (capture_series_title ds s) = current_chapter s"
  "chapter_titles (capture_series_title ds s) = chapter_titles s"
  "chapter_descriptions (capture_series_title ds s) = chapter_descriptions s"
  by (simp_all add: capture_series_title_def split: option.splits)

lemma end_of_chapter_frame:
  assumes "end_of_chapter p s = Inr s'"
  shows "processed_urls s' = processed_urls s" "current_url s' = None" "current_page s' = 1"
    "fetch_log s' = fetch_log s"
    "chapter_contents s' = chapter_contents s @ [current_chapter_content s]"
    "chapter_titles s' = chapter_titles s"
    "chapter_descriptions s' = chapter_descriptions s"
  using assms
  by (auto simp: end_of_chapter_def Let_def capture_series_title_frame
      split: option.splits sum.splits if_splits)

lemma startswith_Nil [simp]: "startswith [] p \<longleftrightarrow> p = []"
  by (cases p) simp_all

lemma absolute_url_nonempty: "absolute_url h \<noteq> []"
  by (cases h) (simp_all add: absolute_url_def)

lemma process_page_Inr:
  assumes "process_page p s = Inr s'"
  obtains s1 where "(if current_page s = 1 then first_page p s else Inr s) = Inr s1"
    and "(\<exists>link h. next_page_link p = Some link \<and> href link = Some h \<and>
            s' = (extract_content p s1)\<lparr>current_url := Some (absolute_url h),
                                         current_page := current_page (extract_content p s1) + 1\<rparr>) \<or>
         (next_page_link p = None \<and> end_of_chapter p (extract_content p s1) = Inr s')"
  using assms
  by (auto simp: process_page_def Let_def split: sum.splits option.splits)

lemma before_content_frame:
  assumes "(if current_page s = 1 then first_page p s else Inr s) = Inr s1"
  shows "processed_urls s1 = processed_urls s" "chapter_urls s1 = chapter_urls s"
    "current_url s1 = current_url s" "current_page s1 = current_page s"
    "fetch_log s1 = fetch_log s" "chapter_contents s1 = chapter_contents s"
    "current_chapter_content s1 = current_chapter_content s"
    "current_chapter s1 = current_chapter s" "series_title s1 = series_title s"
    "chapter_titles s1 = chapter_titles s"
  using assms first_page_frame [of p s s1] by (auto split: if_splits)

text \<open>After a page: either the next page of the chapter, or the chapter is over.\<close>

lemma process_page_processed_urls:
  assumes "process_page p s = Inr s'"
  shows "processed_urls s' = processed_urls s"
proof -
  from assms obtain s1 where s1: "(if current_page s = 1 then first_page p s else Inr s) = Inr s1"
    and s': "(\<exists>link h. next_page_link p = Some link \<and> href link = Some h \<and>
            s' = (extract_content p s1)\<lparr>current_url := Some (absolute_url h),
                                         current_page := current_page (extract_content p s1) + 1\<rparr>) \<or>
         (next_page_link p = None \<and> end_of_chapter p (extract_content p s1) = Inr s')"
    by (rule process_page_Inr)
  from s' show ?thesis
  proof (elim disjE exE conjE)
    fix link h
    assume "s' = (extract_content p s1)\<lparr>current_url := Some (absolute_url h),
                                         current_page := current_page (extract_content p s1) + 1\<rparr>"
    then show ?thesis
      using before_content_frame(1) [OF s1] by (simp add: extract_content_frame)
  next
    assume "end_of_chapter p (extract_content p s1) = Inr s'"
    from end_of_chapter_frame(1) [OF this] show ?thesis
      using before_content_frame(1) [OF s1] by (simp add: extract_content_frame)
  qed
qed

lemma process_page_fetch_log:
  assumes "process_page p s = Inr s'"
  shows "fetch_log s' = fetch_log s"
proof -
  from assms obtain s1 where s1: "(if current_page s = 1 then first_page p s else Inr s) = Inr s1"
    and s': "(\<exists>link h. next_page_link p = Some link \<and> href link = Some h \<and>
            s' = (extract_content p s1)\<lparr>current_url := Some (absolute_url h),
                                         current_page := current_page (extract_content p s1) + 1\<rparr>) \<or>
         (next_page_link p = None \<and> end_of_chapter p (extract_content p s1) = Inr s')"
    by (rule process_page_Inr)
  from s' show ?thesis
    using before_content_frame(5) [OF s1] end_of_chapter_frame(4) [of p "extract_content p s1" s']
    by (auto simp: extract_content_frame)
qed

lemma process_page_position:
  assumes "process_page p s = Inr s'"
  shows "(in_chapter s' \<and> current_page s' = current_page s + 1) \<or>
         (\<not> in_chapter s' \<and> current_page s' = 1)"
proof -
  from assms obtain s1 where s1: "(if current_page s = 1 then first_page p s else Inr s) = Inr s1"
    and s': "(\<exists>link h. next_page_link p = Some link \<and> href link = Some h \<and>
            s' = (extract_content p s1)\<lparr>current_url := Some (absolute_url h),
                                         current_page := current_page (extract_content p s1) + 1\<rparr>) \<or>
         (next_page_link p = None \<and> end_of_chapter p (extract_content p s1) = Inr s')"
    by (rule process_page_Inr)
  from s' show ?thesis
  proof
    assume "\<exists>link h. next_page_link p = Some link \<and> href link = Some h \<and>
            s' = (extract_content p s1)\<lparr>current_url := Some (absolute_url h),
                                         current_page := current_page (extract_content p s1) + 1\<rparr>"
    then show ?thesis
      using before_content_frame(4) [OF s1]
      by (auto simp: in_chapter_def truthy_def absolute_url_nonempty extract_content_frame)
  next
    assume "next_page_link p = None \<and> end_of_chapter p (extract_content p s1) = Inr s'"
    then show ?thesis
      using end_of_chapter_frame(2,3) [of p "extract_content p s1" s']
      by (simp add: in_chapter_def truthy_def)
  qed
qed

subsection \<open>A failing fetch fails the crawl\<close>

lemma find_next_part_error: "find_next_part ds = Inl e \<Longrightarrow> e = ProcessingError"
  by (induction ds) (auto split: option.splits if_splits)

lemma end_of_chapter_raises:
  "(\<exists>e. end_of_chapter p s = Inl e) \<longleftrightarrow>
   (case series_panel p of None \<Rightarrow> False
    | Some story_links \<Rightarrow> find_next_part story_links = Inl ProcessingError)"
  by (auto simp: end_of_chapter_def Let_def split: option.splits sum.splits dest: find_next_part_error)

lemma process_page_raises:
  "(\<exists>e. process_page p s = Inl e) \<longleftrightarrow> page_raises p (current_page s)"
proof (cases "current_page s = 1")
  case True
  show ?thesis
  proof (cases "desc_nodes p")
    case None
    with True show ?thesis by (simp add: process_page_def first_page_def page_raises_def Let_def)
  next
    case (Some nodes)
    with True obtain s1 where s1: "first_page p s = Inr s1"
      by (simp add: first_page_def Let_def)
    show ?thesis
      using True Some s1 end_of_chapter_raises [of p "extract_content p s1"]
      by (auto simp: process_page_def page_raises_def Let_def split: option.splits)
  qed
next
  case False
  then show ?thesis
    using end_of_chapter_raises [of p "extract_content p s"]
    by (auto simp: process_page_def page_raises_def Let_def split: option.splits)
qed

lemma next_chapter_no_failed_fetch:
  "no_failed_fetch web s \<Longrightarrow> no_failed_fetch web (state_of (next_chapter s))"
  by (auto simp: next_chapter_def no_failed_fetch_def split: list.splits)

lemma next_chapter_not_Abort: "next_chapter s \<noteq> Abort e s'"
  by (auto simp: next_chapter_def split: list.splits)

lemma fetch_page_Next:
  assumes "fetch_page web u s = Next s'" and "no_failed_fetch web s"
  shows "no_failed_fetch web s'"
proof -
  from assms(1) obtain p where p: "web u = Response p"
    and pp: "process_page p (s\<lparr>fetch_log := fetch_log s @ [(u, current_page s)]\<rparr>) = Inr s'"
    by (auto simp: fetch_page_def Let_def split: response.splits sum.splits)
  from pp have "\<not> page_raises p (current_page s)"
    using process_page_raises [of p "s\<lparr>fetch_log := fetch_log s @ [(u, current_page s)]\<rparr>"] by simp
  with p have "\<not> fetch_fails web (u, current_page s)"
    by (simp add: fetch_fails_def)
  moreover have "fetch_log s' = fetch_log s @ [(u, current_page s)]"
    using process_page_fetch_log [OF pp] by simp
  ultimately show ?thesis
    using assms(2) by (auto simp: no_failed_fetch_def)
qed

lemma fetch_page_not_Halt: "fetch_page web u s \<noteq> Halt s'"
  by (auto simp: fetch_page_def Let_def split: response.splits sum.splits)

lemma step_Next_no_failed_fetch:
  "step web s = Next s' \<Longrightarrow> no_failed_fetch web s \<Longrightarrow> no_failed_fetch web s'"
  using next_chapter_no_failed_fetch [of web s]
  by (auto simp: step_def split: option.splits if_splits dest: fetch_page_Next)

lemma step_Halt_no_failed_fetch:
  "step web s = Halt s' \<Longrightarrow> no_failed_fetch web s \<Longrightarrow> no_failed_fetch web s'"
  using next_chapter_no_failed_fetch [of web s]
  by (auto simp: step_def fetch_page_not_Halt split: option.splits if_splits)

lemma crawl_no_failed_fetch:
  "no_failed_fetch web s \<Longrightarrow> (\<exists>e s'. crawl n web s = Abort e s') \<or> no_failed_fetch web (state_of (crawl n web s))"
proof (induction n arbitrary: s)
  case 0
  then show ?case by simp
next
  case (Suc n)
  show ?case
  proof (cases "step web s")
    case (Next s')
    with Suc show ?thesis by (simp add: step_Next_no_failed_fetch)
  next
    case (Abort e s')
    then show ?thesis by simp
  next
    case (Halt s')
    with Suc.prems show ?thesis by (simp add: step_Halt_no_failed_fetch)
  qed
qed

text \<open>
  Claim C1. If any fetch of the crawl raises a network error, or the page it returns
  cannot be parsed or processed, \<^verbatim>\<open>download_story\<close> returns, and what it returns is the
  failure outcome: all seven components are \<^verbatim>\<open>None\<close>, so nothing of the chapters
  completed before reaches the caller. The hypothesis speaks of the history after \<open>n\<close>
  steps, so a crawl that is cut off by the fuel after the failing fetch is covered too:
  it cannot be, the failing step is the last one.
\<close>

theorem download_story_all_or_nothing:
  assumes "\<exists>e \<in> set (fetch_log (state_of (crawl n web (initial_state url)))). fetch_fails web e"
  shows "download_story n web url = Some failure"
proof -
  have "no_failed_fetch web (initial_state url)"
    by (simp add: no_failed_fetch_def initial_state_def)
  from crawl_no_failed_fetch [OF this, of n] assms
  obtain e s' where "crawl n web (initial_state url) = Abort e s'"
    by (auto simp: no_failed_fetch_def)
  then show ?thesis by (simp add: download_story_def)
qed

text \<open>
  The first fetch fails with a network error: the crawl returns the failure outcome
  after two steps (the example of claim C1 in the specification).
\<close>

theorem download_story_all_or_nothing_witness:
  "(\<exists>e \<in> set (fetch_log (state_of (crawl 2 (\<lambda>u. RequestException) (initial_state ''http://a'')))).
      fetch_fails (\<lambda>u. RequestException) e) \<and>
   download_story 2 (\<lambda>u. RequestException) ''http://a'' = Some failure"
proof -
  have h: "\<exists>e \<in> set (fetch_log (state_of (crawl 2 (\<lambda>u. RequestException) (initial_state ''http://a'')))).
      fetch_fails (\<lambda>u. RequestException) e"
    by (simp add: numeral_2_eq_2 initial_state_def step_def next_chapter_def fetch_page_def fetch_fails_def)
  show ?thesis
    using h download_story_all_or_nothing [OF h] by simp
qed

subsection \<open>Chapter starts are fetched once\<close>

(* frame lemmas *)
lemma starts_inv_initial: "starts_inv (initial_state url)"
  by (simp add: starts_inv_def starts_ok_def initial_state_def chapter_starts_def in_chapter_def truthy_def)

lemma next_chapter_starts_inv:
  assumes "starts_inv s" and "\<not> in_chapter s"
  shows "starts_inv (state_of (next_chapter s))"
proof (cases "chapter_urls s")
  case Nil
  with assms show ?thesis by (simp add: next_chapter_def)
next
  case (Cons u rest)
  show ?thesis
  proof (cases "u \<in> processed_urls s")
    case True
    with Cons assms show ?thesis
      by (simp add: next_chapter_def starts_inv_def starts_ok_def in_chapter_def)
  next
    case False
    with Cons assms show ?thesis
      by (auto simp: next_chapter_def starts_inv_def starts_ok_def in_chapter_def truthy_def)
  qed
qed

lemma result_inv_starts_ok: "result_inv r \<Longrightarrow> starts_ok (state_of r)"
  by (cases r) (simp_all add: starts_inv_def starts_ok_def)

lemma fetch_page_starts_inv:
  assumes "starts_inv s" and "current_url s = Some u" and "u \<noteq> []"
  shows "result_inv (fetch_page web u s)"
proof -
  let ?s0 = "s\<lparr>fetch_log := fetch_log s @ [(u, current_page s)]\<rparr>"
  have inch: "in_chapter s"
    using assms(2,3) by (simp add: in_chapter_def truthy_def)
  have s0: "starts_ok ?s0"
    using assms inch by (auto simp: starts_inv_def starts_ok_def chapter_starts_def)
  show ?thesis
  proof (cases "web u")
    case (Response p)
    show ?thesis
    proof (cases "process_page p ?s0")
      case (Inl e)
      with Response s0 show ?thesis by (simp add: fetch_page_def)
    next
      case (Inr s')
      have "starts_inv s'"
        using process_page_position [OF Inr] process_page_fetch_log [OF Inr]
          process_page_processed_urls [OF Inr] s0 assms(1)
        by (auto simp: starts_inv_def starts_ok_def)
      with Response Inr show ?thesis by (simp add: fetch_page_def)
    qed
  qed (use s0 in \<open>simp_all add: fetch_page_def\<close>)
qed

lemma next_chapter_result_inv:
  assumes "starts_inv s" and "\<not> in_chapter s"
  shows "result_inv (next_chapter s)"
  using next_chapter_starts_inv [OF assms]
  by (cases "next_chapter s") (auto simp: next_chapter_def split: list.splits if_splits)

lemma step_starts_inv: "starts_inv s \<Longrightarrow> result_inv (step web s)"
  by (auto simp: step_def in_chapter_def truthy_def
      intro: next_chapter_result_inv fetch_page_starts_inv split: option.splits)

lemma crawl_starts_inv: "starts_inv s \<Longrightarrow> result_inv (crawl n web s)"
proof (induction n arbitrary: s)
  case 0
  then show ?case by simp
next
  case (Suc n)
  from step_starts_inv [OF Suc.prems, of web] Suc.IH show ?case
    by (cases "step web s") simp_all
qed

text \<open>
  Claim C2 as stated fails. Chapter \<open>a\<close> names \<open>b\<close> as its next part, and the first page
  of \<open>b\<close> names \<open>a\<close> as its next page. After four steps \<open>a\<close> is in
  \<open>processed_urls\<close> and has been fetched; the fifth step fetches it again, as page 2
  of chapter \<open>b\<close>: the page loop follows \<^verbatim>\<open>next_url\<close> without looking at the set.
\<close>

theorem revisit_counterexample:
  "''http://a'' \<in> processed_urls (state_of (crawl 4 web_revisit (initial_state ''http://a''))) \<and>
   fetch_log (state_of (crawl 4 web_revisit (initial_state ''http://a''))) =
     [(''http://a'', 1), (''http://b'', 1)] \<and>
   fetch_log (state_of (crawl 5 web_revisit (initial_state ''http://a''))) =
     [(''http://a'', 1), (''http://b'', 1), (''http://a'', 2)]"
  by code_simp

text \<open>
  Claim C2, amended. The visited-set guards chapter starts: a popped queue entry that is
  in \<open>processed_urls\<close> is discarded without a fetch (the step only shortens the queue);
  a next-chapter URL found on the last page of a chapter is not enqueued when it is in
  \<open>processed_urls\<close>; and in every history of a crawl the URLs fetched as a first page
  are pairwise distinct.
\<close>

theorem chapter_start_dedup:
  "(\<not> in_chapter s \<and> chapter_urls s = u # rest \<and> u \<in> processed_urls s \<longrightarrow>
      step web s = Next (s\<lparr>chapter_urls := rest\<rparr>)) \<and>
   (current_url t = Some w \<and> w \<noteq> [] \<and> web w = Response p \<and>
    next_page_link p = None \<and> series_panel p = Some story_links \<and>
    find_next_part story_links = Inr (Some v) \<and> v \<in> processed_urls t \<and>
    step web t = Next t' \<longrightarrow> chapter_urls t' = chapter_urls t) \<and>
   distinct (chapter_starts (fetch_log (state_of (crawl n web (initial_state url)))))"
proof (intro conjI impI)
  assume "\<not> in_chapter s \<and> chapter_urls s = u # rest \<and> u \<in> processed_urls s"
  then show "step web s = Next (s\<lparr>chapter_urls := rest\<rparr>)"
    by (auto simp: step_def next_chapter_def in_chapter_def truthy_def split: option.splits)
next
  let ?t0 = "t\<lparr>fetch_log := fetch_log t @ [(w, current_page t)]\<rparr>"
  assume a: "current_url t = Some w \<and> w \<noteq> [] \<and> web w = Response p \<and>
    next_page_link p = None \<and> series_panel p = Some story_links \<and>
    find_next_part story_links = Inr (Some v) \<and> v \<in> processed_urls t \<and>
    step web t = Next t'"
  then have pp: "process_page p ?t0 = Inr t'"
    by (auto simp: step_def fetch_page_def Let_def split: sum.splits)
  with a obtain t1
    where t1: "(if current_page ?t0 = 1 then first_page p ?t0 else Inr ?t0) = Inr t1"
      and e: "end_of_chapter p (extract_content p t1) = Inr t'"
    by (auto elim: process_page_Inr)
  from a e show "chapter_urls t' = chapter_urls t"
    using before_content_frame(1,2) [OF t1]
    by (auto simp: end_of_chapter_def Let_def extract_content_frame capture_series_title_frame)
next
  show "distinct (chapter_starts (fetch_log (state_of (crawl n web (initial_state url)))))"
    using result_inv_starts_ok [OF crawl_starts_inv [OF starts_inv_initial, of n web url]]
    by (simp add: starts_ok_def)
qed

text \<open>The hypotheses of the amended claim C2 hold at concrete states.\<close>

theorem chapter_start_dedup_witness:
  "(\<not> in_chapter visited_state \<and> chapter_urls visited_state = [''http://a''] \<and>
    ''http://a'' \<in> processed_urls visited_state \<and>
    step web_cycle visited_state = Next (visited_state\<lparr>chapter_urls := []\<rparr>)) \<and>
   (current_url last_page_state = Some ''http://b'' \<and>
    web_cycle ''http://b'' = Response (empty_page\<lparr>series_panel := Some [next_part ''http://a'']\<rparr>) \<and>
    find_next_part [next_part ''http://a''] = Inr (Some ''http://a'') \<and>
    ''http://a'' \<in> processed_urls last_page_state \<and>
    chapter_urls (state_of (step web_cycle last_page_state)) = chapter_urls last_page_state) \<and>
   distinct (chapter_starts (fetch_log (state_of (crawl 5 web_cycle (initial_state ''http://b'')))))"
proof -
  let ?p = "empty_page\<lparr>series_panel := Some [next_part ''http://a'']\<rparr>"
  let ?t' = "last_page_state\<lparr>fetch_log := [(''http://b'', 2)], chapter_contents := [[]],
               current_url := None, current_page := 1\<rparr>"
  have a1: "\<not> in_chapter visited_state \<and> chapter_urls visited_state = [''http://a''] \<and>
    ''http://a'' \<in> processed_urls visited_state"
    by (simp add: visited_state_def initial_state_def in_chapter_def truthy_def)
  have st: "step web_cycle last_page_state = Next ?t'"
    by (simp add: step_def fetch_page_def process_page_def extract_content_def
        end_of_chapter_def capture_series_title_def web_cycle_def empty_page_def next_part_def
        last_page_state_def initial_state_def absolute_url_def truthy_def strip_def lstrip_def
        rstrip_def is_space_def)
  have a2: "current_url last_page_state = Some ''http://b'' \<and> ''http://b'' \<noteq> [] \<and>
    web_cycle ''http://b'' = Response ?p \<and>
    next_page_link ?p = None \<and> series_panel ?p = Some [next_part ''http://a''] \<and>
    find_next_part [next_part ''http://a''] = Inr (Some ''http://a'') \<and>
    ''http://a'' \<in> processed_urls last_page_state \<and>
    step web_cycle last_page_state = Next ?t'"
    using st
    by (simp add: web_cycle_def empty_page_def next_part_def last_page_state_def
        initial_state_def absolute_url_def strip_def lstrip_def rstrip_def is_space_def)
  from chapter_start_dedup [of visited_state "''http://a''" "[]" web_cycle last_page_state
      "''http://b''" ?p "[next_part ''http://a'']" "''http://a''" ?t' 5 "''http://b''"] a1 a2 st
  show ?thesis by simp
qed

subsection \<open>The body of a chapter\<close>

lemma extract_content_body:
  "current_chapter_content (extract_content p s) =
     current_chapter_content s @ concat (map (\<lambda>q. q @ [nl, nl]) (page_paragraphs p))"
  by (simp add: extract_content_def page_paragraphs_def split: option.splits)

lemma chapter_body_Cons:
  "chapter_body (p # ps) = concat (map (\<lambda>q. q @ [nl, nl]) (page_paragraphs p)) @ chapter_body ps"
  by (simp add: chapter_body_def)

lemma fetch_page_Next_process:
  assumes "fetch_page web u s = Next s'" and "web u = Response p"
  shows "process_page p (s\<lparr>fetch_log := fetch_log s @ [(u, current_page s)]\<rparr>) = Inr s'"
  using assms by (auto simp: fetch_page_def Let_def split: sum.splits)

lemma crawl_Suc_Next:
  "crawl (Suc n) web s = Next s' \<Longrightarrow> \<exists>s1. step web s = Next s1 \<and> crawl n web s1 = Next s'"
  by (auto split: step_result.splits)

lemma chapter_pages_body:
  assumes "chapter_pages web u pages" and "current_url s = Some u" and "u \<noteq> []"
    and "crawl (length pages) web s = Next s'"
  shows "chapter_contents s' = chapter_contents s @ [current_chapter_content s @ chapter_body pages]"
  using assms
proof (induction web u pages arbitrary: s rule: chapter_pages.induct)
  case (1 web u)
  then show ?case by simp
next
  case (2 web u p)
  let ?s0 = "s\<lparr>fetch_log := fetch_log s @ [(u, current_page s)]\<rparr>"
  from "2.prems" have st: "fetch_page web u s = Next s'"
    by (auto simp: step_def split: step_result.splits)
  from "2.prems"(1) have p: "web u = Response p" and last: "next_page_link p = None"
    by simp_all
  from fetch_page_Next_process [OF st p] last obtain s1
    where s1: "(if current_page ?s0 = 1 then first_page p ?s0 else Inr ?s0) = Inr s1"
      and e: "end_of_chapter p (extract_content p s1) = Inr s'"
    by (auto elim: process_page_Inr)
  from end_of_chapter_frame(5) [OF e] show ?case
    using before_content_frame(6,7) [OF s1]
    by (simp add: extract_content_frame extract_content_body chapter_body_def)
next
  case (3 web u p q ps)
  let ?s0 = "s\<lparr>fetch_log := fetch_log s @ [(u, current_page s)]\<rparr>"
  from "3.prems"(1) obtain link h where p: "web u = Response p"
    and link: "next_page_link p = Some link" and h: "href link = Some h"
    and rest: "chapter_pages web (absolute_url h) (q # ps)"
    by (auto split: option.splits)
  from "3.prems"(4) obtain s1 where st: "step web s = Next s1"
    and cr: "crawl (length (q # ps)) web s1 = Next s'"
    using crawl_Suc_Next [of "length (q # ps)" web s s'] by auto
  from st "3.prems"(2,3) have "fetch_page web u s = Next s1"
    by (simp add: step_def)
  from fetch_page_Next_process [OF this p] link h obtain s0
    where s0: "(if current_page ?s0 = 1 then first_page p ?s0 else Inr ?s0) = Inr s0"
      and s1: "s1 = (extract_content p s0)\<lparr>current_url := Some (absolute_url h),
                 current_page := current_page (extract_content p s0) + 1\<rparr>"
    by (auto elim: process_page_Inr)
  have url: "current_url s1 = Some (absolute_url h)"
    by (simp add: s1)
  have "chapter_contents s' =
          chapter_contents s1 @ [current_chapter_content s1 @ chapter_body (q # ps)]"
    using "3.IH" [OF link h rest url absolute_url_nonempty cr] .
  moreover have "chapter_contents s1 = chapter_contents s"
    using before_content_frame(6) [OF s0] by (simp add: s1 extract_content_frame)
  moreover have "current_chapter_content s1 =
      current_chapter_content s @ concat (map (\<lambda>q. q @ [nl, nl]) (page_paragraphs p))"
    using before_content_frame(7) [OF s0] by (simp add: s1 extract_content_body)
  ultimately show ?case
    by (simp add: chapter_body_Cons)
qed

text \<open>
  Claim C3 as stated fails: the source appends a blank line after every paragraph
  (\<^verbatim>\<open>current_chapter_content += paragraph.get_text(strip=True) + "\n\n"\<close>), so the body is
  not the paragraphs with blank lines between them. A chapter of one page with the one
  paragraph \<open>x\<close> has the body \<open>x\<close> followed by two line feeds.
\<close>

theorem chapter_body_counterexample:
  "chapter_pages web_one_page ''http://a'' [one_paragraph_page] \<and>
   chapter_contents (state_of (crawl 2 web_one_page (initial_state ''http://a''))) =
     [''x'' @ [nl, nl]] \<and>
   separated_body [one_paragraph_page] = ''x'' \<and>
   chapter_contents (state_of (crawl 2 web_one_page (initial_state ''http://a''))) \<noteq>
     [separated_body [one_paragraph_page]]"
  by code_simp

text \<open>
  Claim C3, amended. For a chapter of any number of pages (the list \<open>pages\<close> is not
  empty), entered with an empty body buffer, the body appended to \<open>chapter_contents\<close>
  when the last page has been processed is the concatenation, in page order, of the
  paragraphs of each page, every paragraph followed by a blank line. Pages without a
  content block contribute no paragraph.
\<close>

theorem chapter_body_all_pages:
  assumes "chapter_pages web u pages" and "current_url s = Some u" and "u \<noteq> []"
    and "current_chapter_content s = []"
    and "crawl (length pages) web s = Next s'"
  shows "chapter_contents s' = chapter_contents s @ [chapter_body pages]"
  using chapter_pages_body [OF assms(1,2,3,5)] assms(4) by simp

text \<open>
  A chapter of two pages with the paragraphs \<open>p1\<close>, \<open>p2\<close> and \<open>p3\<close>; the second
  page is reached through a relative link.
\<close>

theorem chapter_body_all_pages_witness:
  "chapter_pages web_two_pages ''http://a'' two_pages \<and>
   crawl 3 web_two_pages (initial_state ''http://a'') =
     Next (state_of (crawl 3 web_two_pages (initial_state ''http://a''))) \<and>
   chapter_contents (state_of (crawl 3 web_two_pages (initial_state ''http://a''))) =
     [''p1'' @ [nl, nl] @ ''p2'' @ [nl, nl] @ ''p3'' @ [nl, nl]]"
proof -
  let ?s = "state_of (crawl 1 web_two_pages (initial_state ''http://a''))"
  let ?s' = "state_of (crawl 3 web_two_pages (initial_state ''http://a''))"
  have a: "chapter_pages web_two_pages ''http://a'' two_pages"
    by code_simp
  have b: "current_url ?s = Some ''http://a''" "''http://a'' \<noteq> []"
    "current_chapter_content ?s = []" "chapter_contents ?s = []"
    by code_simp+
  have c: "crawl (length two_pages) web_two_pages ?s = Next ?s'"
    by code_simp
  have d: "crawl 3 web_two_pages (initial_state ''http://a'') = Next ?s'"
    by code_simp
  have e: "chapter_body two_pages = ''p1'' @ [nl, nl] @ ''p2'' @ [nl, nl] @ ''p3'' @ [nl, nl]"
    by code_simp
  from chapter_body_all_pages [OF a b(1,2,3) c] a b(4) d e show ?thesis
    by simp
qed

subsection \<open>The series title\<close>

lemma before_content_story_title:
  assumes "(if current_page s = 1 then first_page p s else Inr s) = Inr s1"
    and "current_chapter s \<noteq> 1"
  shows "story_title s1 = story_title s"
  using assms by (auto simp: first_page_def Let_def split: if_splits option.splits)

lemma end_of_chapter_titles:
  assumes "end_of_chapter p s = Inr s'"
  shows "(series_title s' = series_title s \<and> story_title s' = story_title s) \<or>
         (\<not> truthy (series_title s) \<and> (\<exists>t. series_title s' = Some t \<and> story_title s' = t))"
  using assms
  by (auto simp: end_of_chapter_def capture_series_title_def Let_def
      split: option.splits sum.splits if_splits)

lemma process_page_title_fixed:
  assumes "title_fixed t s" and "current_chapter s = length (chapter_contents s) + 1"
    and "process_page p s = Inr s'"
  shows "title_fixed t s'"
proof -
  from assms(3) obtain s1 where s1: "(if current_page s = 1 then first_page p s else Inr s) = Inr s1"
    and s': "(\<exists>link h. next_page_link p = Some link \<and> href link = Some h \<and>
            s' = (extract_content p s1)\<lparr>current_url := Some (absolute_url h),
                                         current_page := current_page (extract_content p s1) + 1\<rparr>) \<or>
         (next_page_link p = None \<and> end_of_chapter p (extract_content p s1) = Inr s')"
    by (rule process_page_Inr)
  from assms(1,2) have "current_chapter s \<noteq> 1"
    by (simp add: title_fixed_def)
  from before_content_story_title [OF s1 this] before_content_frame(6,9) [OF s1] assms(1)
  have fixed: "title_fixed t (extract_content p s1)"
    by (simp add: title_fixed_def extract_content_frame)
  from s' show ?thesis
  proof (elim disjE exE conjE)
    fix link h
    assume "s' = (extract_content p s1)\<lparr>current_url := Some (absolute_url h),
                   current_page := current_page (extract_content p s1) + 1\<rparr>"
    with fixed show ?thesis by (simp add: title_fixed_def)
  next
    assume e: "end_of_chapter p (extract_content p s1) = Inr s'"
    from end_of_chapter_titles [OF e] end_of_chapter_frame(5) [OF e] fixed show ?thesis
      by (auto simp: title_fixed_def truthy_def)
  qed
qed

lemma process_page_chapter_numbered:
  assumes "current_chapter s = length (chapter_contents s) + 1" and "process_page p s = Inr s'"
  shows "chapter_numbered s'"
proof -
  from assms(2) obtain s1 where s1: "(if current_page s = 1 then first_page p s else Inr s) = Inr s1"
    and s': "(\<exists>link h. next_page_link p = Some link \<and> href link = Some h \<and>
            s' = (extract_content p s1)\<lparr>current_url := Some (absolute_url h),
                                         current_page := current_page (extract_content p s1) + 1\<rparr>) \<or>
         (next_page_link p = None \<and> end_of_chapter p (extract_content p s1) = Inr s')"
    by (rule process_page_Inr)
  from s' show ?thesis
  proof (elim disjE exE conjE)
    fix link h
    assume "s' = (extract_content p s1)\<lparr>current_url := Some (absolute_url h),
                   current_page := current_page (extract_content p s1) + 1\<rparr>"
    with before_content_frame(6,8) [OF s1] assms(1) show ?thesis
      by (simp add: chapter_numbered_def extract_content_frame)
  next
    assume e: "end_of_chapter p (extract_content p s1) = Inr s'"
    from end_of_chapter_frame(2) [OF e] show ?thesis
      by (simp add: chapter_numbered_def in_chapter_def truthy_def)
  qed
qed

lemma process_page_series_inv:
  assumes "series_inv s" and "current_chapter s = length (chapter_contents s) + 1"
    and "process_page p s = Inr s'"
  shows "series_inv s'"
proof (cases "\<exists>t. series_title s = Some t \<and> t \<noteq> []")
  case True
  then obtain t where t: "series_title s = Some t" "t \<noteq> []" by blast
  with assms(1) have "title_fixed t s" by (simp add: series_inv_def)
  from process_page_title_fixed [OF this assms(2,3)] process_page_chapter_numbered [OF assms(2,3)]
  show ?thesis by (simp add: series_inv_def title_fixed_def)
next
  case False
  then have falsy: "\<not> truthy (series_title s)"
    by (cases "series_title s") (simp_all add: truthy_def)
  from assms(3) obtain s1 where s1: "(if current_page s = 1 then first_page p s else Inr s) = Inr s1"
    and s': "(\<exists>link h. next_page_link p = Some link \<and> href link = Some h \<and>
            s' = (extract_content p s1)\<lparr>current_url := Some (absolute_url h),
                                         current_page := current_page (extract_content p s1) + 1\<rparr>) \<or>
         (next_page_link p = None \<and> end_of_chapter p (extract_content p s1) = Inr s')"
    by (rule process_page_Inr)
  have ser: "series_title (extract_content p s1) = series_title s"
    using before_content_frame(9) [OF s1] by (simp add: extract_content_frame)
  from s' have "case series_title s' of None \<Rightarrow> True | Some t \<Rightarrow> t = [] \<or> title_fixed t s'"
  proof (elim disjE exE conjE)
    fix link h
    assume "s' = (extract_content p s1)\<lparr>current_url := Some (absolute_url h),
                   current_page := current_page (extract_content p s1) + 1\<rparr>"
    with ser falsy show ?thesis
      by (auto simp: truthy_def split: option.splits)
  next
    assume e: "end_of_chapter p (extract_content p s1) = Inr s'"
    from end_of_chapter_titles [OF e] end_of_chapter_frame(5) [OF e] ser falsy show ?thesis
      by (auto simp: title_fixed_def truthy_def split: option.splits)
  qed
  with process_page_chapter_numbered [OF assms(2,3)] show ?thesis
    by (simp add: series_inv_def)
qed

lemma log_update_series_inv [simp]:
  "series_inv (s\<lparr>fetch_log := l\<rparr>) = series_inv s"
  "title_fixed t (s\<lparr>fetch_log := l\<rparr>) = title_fixed t s"
  "chapter_numbered (s\<lparr>fetch_log := l\<rparr>) = chapter_numbered s"
  by (simp_all add: series_inv_def title_fixed_def chapter_numbered_def in_chapter_def
      split: option.splits)

lemma next_chapter_series_inv:
  "series_inv s \<Longrightarrow> series_inv (state_of (next_chapter s))"
  "title_fixed t s \<Longrightarrow> title_fixed t (state_of (next_chapter s))"
  "chapter_numbered s \<Longrightarrow> chapter_numbered (state_of (next_chapter s))"
  by (auto simp: next_chapter_def series_inv_def title_fixed_def chapter_numbered_def
      in_chapter_def truthy_def split: list.splits option.splits)

lemma fetch_page_series_inv:
  assumes "current_url s = Some u" and "u \<noteq> []" and "chapter_numbered s"
  shows "series_inv s \<Longrightarrow> series_inv (state_of (fetch_page web u s))"
    and "title_fixed t s \<Longrightarrow> title_fixed t (state_of (fetch_page web u s))"
    and "chapter_numbered (state_of (fetch_page web u s))"
proof -
  let ?s0 = "s\<lparr>fetch_log := fetch_log s @ [(u, current_page s)]\<rparr>"
  from assms have num: "current_chapter ?s0 = length (chapter_contents ?s0) + 1"
    by (simp add: chapter_numbered_def in_chapter_def truthy_def)
  show "series_inv s \<Longrightarrow> series_inv (state_of (fetch_page web u s))"
    using process_page_series_inv [OF _ num]
    by (auto simp: fetch_page_def Let_def split: response.splits sum.splits)
  show "title_fixed t s \<Longrightarrow> title_fixed t (state_of (fetch_page web u s))"
    using process_page_title_fixed [OF _ num]
    by (auto simp: fetch_page_def Let_def split: response.splits sum.splits)
  show "chapter_numbered (state_of (fetch_page web u s))"
    using process_page_chapter_numbered [OF num] assms(3)
    by (auto simp: fetch_page_def Let_def split: response.splits sum.splits)
qed

lemma step_series_inv:
  assumes "chapter_numbered s"
  shows "series_inv s \<Longrightarrow> series_inv (state_of (step web s))"
    and "title_fixed t s \<Longrightarrow> title_fixed t (state_of (step web s))"
    and "chapter_numbered (state_of (step web s))"
  using assms next_chapter_series_inv fetch_page_series_inv
  by (auto simp: step_def split: option.splits)

lemma crawl_title_fixed:
  "title_fixed t s \<Longrightarrow> chapter_numbered s \<Longrightarrow> title_fixed t (state_of (crawl n web s))"
proof (induction n arbitrary: s)
  case 0
  then show ?case by simp
next
  case (Suc n)
  from step_series_inv(2) [OF Suc.prems(2,1), of web] step_series_inv(3) [OF Suc.prems(2), of web]
    Suc.IH show ?case
    by (cases "step web s") simp_all
qed

lemma crawl_series_inv:
  "series_inv s \<Longrightarrow> series_inv (state_of (crawl n web s))"
proof (induction n arbitrary: s)
  case 0
  then show ?case by simp
next
  case (Suc n)
  from Suc.prems have "chapter_numbered s" by (simp add: series_inv_def)
  from step_series_inv(1) [OF this Suc.prems, of web] Suc.IH show ?case
    by (cases "step web s") simp_all
qed

lemma series_inv_initial: "series_inv (initial_state url)"
  by (simp add: series_inv_def initial_state_def chapter_numbered_def in_chapter_def truthy_def)

lemma crawl_add:
  "crawl (m + n) web s = (case crawl m web s of Next s' \<Rightarrow> crawl n web s' | r \<Rightarrow> r)"
  by (induction m arbitrary: s) (auto split: step_result.splits)

text \<open>
  Claim C5 as stated fails. The test \<^verbatim>\<open>if not series_title\<close> takes an empty series title
  for none. The series link of chapter \<open>a\<close> has a blank text: after chapter \<open>a\<close> the
  story title, first \<open>Part 1\<close>, has been overwritten with the empty string; after
  chapter \<open>b\<close> it has been overwritten a second time, with \<open>Saga\<close>.
\<close>

theorem blank_series_title_counterexample:
  "series_title (state_of (crawl 2 web_blank_series (initial_state ''http://a''))) = Some [] \<and>
   story_title (state_of (crawl 2 web_blank_series (initial_state ''http://a''))) = [] \<and>
   series_title (state_of (crawl 4 web_blank_series (initial_state ''http://a''))) = Some ''Saga'' \<and>
   story_title (state_of (crawl 4 web_blank_series (initial_state ''http://a''))) = ''Saga''"
  by code_simp

text \<open>
  Claim C5, amended. Once a non-empty series title has been captured (after \<open>m\<close> steps
  of a crawl), it is the story title, and at every later step of the crawl (\<open>m + n\<close>)
  the story title and the captured series title are still the same: no later series
  discovery, and no later first page, changes the story title again.
\<close>

theorem series_title_fixes_story_title:
  assumes "series_title (state_of (crawl m web (initial_state url))) = Some t" and "t \<noteq> []"
  shows "story_title (state_of (crawl (m + n) web (initial_state url))) = t \<and>
         series_title (state_of (crawl (m + n) web (initial_state url))) = Some t"
proof -
  let ?s = "state_of (crawl m web (initial_state url))"
  have inv: "series_inv ?s"
    by (rule crawl_series_inv [OF series_inv_initial])
  with assms have fixed: "title_fixed t ?s" and num: "chapter_numbered ?s"
    by (simp_all add: series_inv_def)
  have "title_fixed t (state_of (crawl (m + n) web (initial_state url)))"
  proof (cases "crawl m web (initial_state url)")
    case (Next s')
    with crawl_title_fixed [OF fixed num, of n web] show ?thesis
      by (simp add: crawl_add)
  next
    case (Abort e s')
    with fixed show ?thesis by (simp add: crawl_add)
  next
    case (Halt s')
    with fixed show ?thesis by (simp add: crawl_add)
  qed
  then show ?thesis by (simp add: title_fixed_def)
qed

text \<open>
  Chapter \<open>a\<close> names the series \<open>Saga\<close>, chapter \<open>b\<close> the series \<open>Other\<close>: the
  story title is \<open>Saga\<close> when the crawl halts.
\<close>

theorem series_title_fixes_story_title_witness:
  "series_title (state_of (crawl 2 web_series (initial_state ''http://a''))) = Some ''Saga'' \<and>
   story_title (state_of (crawl (2 + 3) web_series (initial_state ''http://a''))) = ''Saga'' \<and>
   series_title (state_of (crawl (2 + 3) web_series (initial_state ''http://a''))) = Some ''Saga'' \<and>
   crawl (2 + 3) web_series (initial_state ''http://a'') =
     Halt (state_of (crawl 5 web_series (initial_state ''http://a'')))"
proof -
  have a: "series_title (state_of (crawl 2 web_series (initial_state ''http://a''))) = Some ''Saga''"
    by code_simp
  have b: "''Saga'' \<noteq> []" by simp
  have c: "crawl (2 + 3) web_series (initial_state ''http://a'') =
     Halt (state_of (crawl 5 web_series (initial_state ''http://a'')))"
    by code_simp
  from series_title_fixes_story_title [OF a b, of 3] a c show ?thesis
    by simp
qed

subsection \<open>The description of the book\<close>

lemma description_parts_append:
  "description_parts xs parts =
     parts @ map (\<lambda>(t, d). t @ '': '' @ d) (filter (\<lambda>(t, d). d \<noteq> []) xs)"
  by (induction xs arbitrary: parts) auto

lemma description_lines_Cons:
  "description_lines (t # ts) (d # ds) =
     (if d \<noteq> [] then [t @ '': '' @ d] else []) @ description_lines ts ds"
proof -
  have "[0..<Suc (length ts)] = 0 # map Suc [0..<length ts]"
    by (simp add: upt_conv_Cons map_Suc_upt del: upt_Suc)
  then show ?thesis
    by (simp add: description_lines_def filter_map o_def del: upt_Suc)
qed

lemma description_lines_zip:
  "length ts = length ds \<Longrightarrow>
   map (\<lambda>(t, d). t @ '': '' @ d) (filter (\<lambda>(t, d). d \<noteq> []) (zip ts ds)) =
     description_lines ts ds"
proof (induction ts ds rule: list_induct2)
  case Nil
  show ?case by (simp add: description_lines_def)
next
  case (Cons t ts d ds)
  then show ?case by (simp add: description_lines_Cons)
qed

lemma epub_description_lines:
  assumes "length ts = length ds"
  shows "epub_description (Some ts) (Some ds) =
     (if description_lines ts ds = [] then None else Some (join [nl] (description_lines ts ds)))"
proof (cases ts)
  case Nil
  with assms show ?thesis
    by (simp add: epub_description_def description_lines_def)
next
  case (Cons t ts')
  with assms have "ds \<noteq> []" by auto
  with Cons show ?thesis
    using description_lines_zip [OF assms]
    by (simp add: epub_description_def description_parts_append Let_def)
qed

text \<open>
  Claim C8. For chapter titles and chapter descriptions of the same length, the
  \<^verbatim>\<open>DC description\<close> entry of the packaged book is made of the lines
  "title: description" of exactly the chapters whose description is not empty, in
  chapter order, joined by a line feed. When no chapter has a description there is no
  line, and the book gets no description entry.
\<close>

theorem description_field_lines:
  assumes "length ts = length ds"
    and "create_epub_file builds title author content (Some ts) (Some ds) category tags = Inr book"
  shows "description book =
     (if description_lines ts ds = [] then None else Some (join [nl] (description_lines ts ds)))"
  using assms(2) epub_description_lines [OF assms(1)]
  by (auto simp: create_epub_file_def Let_def split: if_splits)

text \<open>
  The example of the specification: titles \<open>Ch1\<close>, \<open>Ch2\<close> and descriptions
  \<open>A meets B\<close>, \<open>B leaves\<close>.
\<close>

theorem description_field_lines_witness:
  "length [''Ch1'', ''Ch2''] = length [''A meets B'', ''B leaves''] \<and>
   (\<exists>book. create_epub_file (\<lambda>f. True) ''T'' ''A'' two_chapter_story (Some [''Ch1'', ''Ch2''])
              (Some [''A meets B'', ''B leaves'']) None None = Inr book \<and>
           description book = Some (''Ch1: A meets B'' @ [nl] @ ''Ch2: B leaves''))"
proof -
  let ?r = "create_epub_file (\<lambda>f. True) ''T'' ''A'' two_chapter_story (Some [''Ch1'', ''Ch2''])
              (Some [''A meets B'', ''B leaves'']) None None"
  have len: "length [''Ch1'', ''Ch2''] = length [''A meets B'', ''B leaves'']"
    by simp
  have ne: "?r \<noteq> Inl NoValidChapters"
    by code_simp
  obtain book where book: "?r = Inr book"
  proof (cases ?r)
    case (Inl e)
    with ne show ?thesis by (cases e) simp
  next
    case (Inr b)
    then show ?thesis by (rule that)
  qed
  have lines: "description_lines [''Ch1'', ''Ch2''] [''A meets B'', ''B leaves''] =
      [''Ch1: A meets B'', ''Ch2: B leaves'']"
    by code_simp
  from description_field_lines [OF len book] lines
  have "description book = Some (''Ch1: A meets B'' @ [nl] @ ''Ch2: B leaves'')"
    by simp
  with book len show ?thesis by blast
qed

subsection \<open>The validation error\<close>

lemma split_from_nonempty: "split_from sep piece rest \<noteq> []"
  by (induction sep piece rest rule: split_from.induct) auto

lemma file_name_main_chapter: "file_name (main_chapter i chapter_text) = chapter_file i"
  by (simp add: main_chapter_def Let_def split: option.splits prod.splits)

lemma main_chapters_files:
  "map file_name (main_chapters builds i texts) =
     filter builds (map chapter_file [i..<i + length texts])"
proof (induction texts arbitrary: i)
  case Nil
  show ?case by simp
next
  case (Cons x xs)
  have "[i..<i + length (x # xs)] = i # [Suc i..<Suc i + length xs]"
    by (simp add: upt_conv_Cons del: upt_Suc)
  with Cons [of "Suc i"] show ?case
    by (simp add: file_name_main_chapter del: upt_Suc)
qed

lemma pages_files:
  "map file_name (metadata_chapter builds category tags @
                  intro_chapter builds (hd (str_split content chapter_separator)) @
                  main_chapters builds 1 (tl (str_split content chapter_separator))) =
     filter builds (candidate_files content category tags)"
proof -
  have "str_split content chapter_separator \<noteq> []"
    by (simp add: str_split_def split_from_nonempty)
  then have "1 + length (tl (str_split content chapter_separator)) =
      length (str_split content chapter_separator)"
    by (cases "str_split content chapter_separator") simp_all
  then show ?thesis
    using main_chapters_files [of builds 1 "tl (str_split content chapter_separator)"]
    by (simp add: candidate_files_def metadata_chapter_def intro_chapter_def)
qed

lemma combine_chapters_prefix:
  "\<exists>r. combine_chapters i xs (chapter_separator @ a) = chapter_separator @ r"
proof (induction xs arbitrary: i a)
  case Nil
  show ?case by simp
next
  case (Cons x xs)
  obtain t c where x: "x = (t, c)" by (cases x)
  from Cons [of "Suc i" "a @ [nl, nl] @ ''Chapter '' @ str_nat i @ '': '' @ t @ [nl, nl] @ c"]
  show ?case by (simp add: x)
qed

lemma combined_story_prefix:
  "\<exists>r. combine_chapters i ((t, c) # rest) [] = chapter_separator @ r"
  using combine_chapters_prefix [of "Suc i" rest "str_nat i @ '': '' @ t @ [nl, nl] @ c"]
  by (simp add: chapter_separator_def)

lemma str_split_separator_first:
  "str_split (chapter_separator @ r) chapter_separator = [] # split_from chapter_separator [] r"
  by (simp add: str_split_def chapter_separator_def)

text \<open>
  Claim C9 as stated fails: the test \<^verbatim>\<open>if not chapters\<close> counts the metadata page and the
  introduction. An empty story text has no chapter, yet with a category the packager
  raises nothing and builds a book whose only page is the metadata page.
\<close>

theorem metadata_only_counterexample:
  "story_chapters [] = [] \<and>
   create_epub_file (\<lambda>f. True) ''T'' ''A'' [] None None (Some ''Romance'') None =
     Inr \<lparr>book_title = ''T'', book_author = ''A'', subjects = [''Romance''],
          description = None,
          chapters = [\<lparr>item_title = ''Story Information'', file_name = ''metadata.xhtml'',
                       item_content = format_metadata_content (Some ''Romance'') None\<rparr>]\<rparr>"
  by code_simp

text \<open>
  Claim C9, amended. \<^verbatim>\<open>create_epub_file\<close> raises \<^verbatim>\<open>ValueError("No valid chapters found")\<close>
  exactly when none of the pages it tries to add has been built, that is when its list
  \<^verbatim>\<open>chapters\<close> is empty; the pages are the metadata page, the introduction and the
  pages of the chapters. And when the story text is the combination of at least one
  chapter of a crawl, and the page of chapter 1 builds, the error is not raised.
\<close>

theorem validation_error_iff:
  "(create_epub_file builds title author content titles descriptions category tags =
      Inl NoValidChapters \<longleftrightarrow>
    filter builds (candidate_files content category tags) = []) \<and>
   (builds (chapter_file 1) \<longrightarrow>
    create_epub_file builds title author (combine_chapters 1 ((t, c) # rest) []) titles
      descriptions category tags \<noteq> Inl NoValidChapters)"
proof
  let ?pages = "metadata_chapter builds category tags @
                intro_chapter builds (hd (str_split content chapter_separator)) @
                main_chapters builds 1 (tl (str_split content chapter_separator))"
  have "?pages = [] \<longleftrightarrow> map file_name ?pages = []"
    by simp
  also have "\<dots> \<longleftrightarrow> filter builds (candidate_files content category tags) = []"
    by (simp only: pages_files)
  finally show "create_epub_file builds title author content titles descriptions category tags =
      Inl NoValidChapters \<longleftrightarrow>
    filter builds (candidate_files content category tags) = []"
    by (simp add: create_epub_file_def Let_def)
next
  show "builds (chapter_file 1) \<longrightarrow>
    create_epub_file builds title author (combine_chapters 1 ((t, c) # rest) []) titles
      descriptions category tags \<noteq> Inl NoValidChapters"
  proof
    assume b: "builds (chapter_file 1)"
    obtain r where r: "combine_chapters 1 ((t, c) # rest) [] = chapter_separator @ r"
      using combined_story_prefix by blast
    obtain x xs where xs: "split_from chapter_separator [] r = x # xs"
      using split_from_nonempty [of chapter_separator "[]" r]
      by (cases "split_from chapter_separator [] r") auto
    have texts: "str_split (combine_chapters 1 ((t, c) # rest) []) chapter_separator =
        [] # x # xs"
      by (simp only: r str_split_separator_first xs)
    show "create_epub_file builds title author (combine_chapters 1 ((t, c) # rest) []) titles
      descriptions category tags \<noteq> Inl NoValidChapters"
      using b texts by (simp add: create_epub_file_def Let_def del: combine_chapters.simps)
  qed
qed

text \<open>
  An empty story with no category and no tag raises the error; the story of one chapter
  does not.
\<close>

theorem validation_error_iff_witness:
  "create_epub_file (\<lambda>f. True) ''T'' ''A'' [] None None None (Some []) = Inl NoValidChapters \<and>
   filter (\<lambda>f. True) (candidate_files [] None (Some [])) = [] \<and>
   combine_chapters 1 [(''B'', ''pb'' @ [nl, nl])] [] =
     [nl, nl] @ ''Chapter 1: B'' @ [nl, nl] @ ''pb'' @ [nl, nl] \<and>
   create_epub_file (\<lambda>f. True) ''T'' ''A'' (combine_chapters 1 [(''B'', ''pb'' @ [nl, nl])] [])
     None None None (Some []) \<noteq> Inl NoValidChapters"
proof -
  have a: "filter (\<lambda>f. True) (candidate_files [] None (Some [])) = []"
    by code_simp
  have b: "combine_chapters 1 [(''B'', ''pb'' @ [nl, nl])] [] =
     [nl, nl] @ ''Chapter 1: B'' @ [nl, nl] @ ''pb'' @ [nl, nl]"
    by code_simp
  from validation_error_iff [of "\<lambda>f. True" "''T''" "''A''" "[]" None None None "Some []"
      "''B''" "''pb'' @ [nl, nl]" "[]"] a b
  show ?thesis by simp
qed

subsection \<open>Titles, descriptions and chapter starts\<close>

lemma find_next_part_nonempty: "find_next_part ds = Inr (Some u) \<Longrightarrow> u \<noteq> []"
  by (induction ds) (auto simp: absolute_url_nonempty split: option.splits if_splits)

lemma before_content_lists:
  assumes "(if current_page s = 1 then first_page p s else Inr s) = Inr s1"
  shows "chapter_descriptions s1 =
           chapter_descriptions s @ (if current_page s = 1 then [description_of p] else [])"
  using assms
  by (auto simp: first_page_def story_metadata_def description_of_def Let_def
      split: if_splits option.splits list.splits)

lemma extract_content_titles:
  "chapter_titles (extract_content p s) =
     chapter_titles s @
       (if current_page s = 1 \<and> content_div p \<noteq> None then [current_title_of p] else [])"
  by (simp add: extract_content_def split: option.splits)

lemma end_of_chapter_queue:
  assumes "end_of_chapter p s = Inr s'" and "[] \<notin> set (chapter_urls s)"
  shows "[] \<notin> set (chapter_urls s')"
  using assms
  by (auto simp: end_of_chapter_def Let_def capture_series_title_frame
      split: option.splits sum.splits if_splits dest: find_next_part_nonempty)

lemma process_page_lists:
  assumes "process_page p s = Inr s'"
  shows "chapter_descriptions s' =
           chapter_descriptions s @ (if current_page s = 1 then [description_of p] else [])"
    and "chapter_titles s' =
           chapter_titles s @
             (if current_page s = 1 \<and> content_div p \<noteq> None then [current_title_of p] else [])"
    and "[] \<notin> set (chapter_urls s) \<Longrightarrow> [] \<notin> set (chapter_urls s')"
proof -
  from assms obtain s1 where s1: "(if current_page s = 1 then first_page p s else Inr s) = Inr s1"
    and s': "(\<exists>link h. next_page_link p = Some link \<and> href link = Some h \<and>
            s' = (extract_content p s1)\<lparr>current_url := Some (absolute_url h),
                                         current_page := current_page (extract_content p s1) + 1\<rparr>) \<or>
         (next_page_link p = None \<and> end_of_chapter p (extract_content p s1) = Inr s')"
    by (rule process_page_Inr)
  have d: "chapter_descriptions (extract_content p s1) =
      chapter_descriptions s @ (if current_page s = 1 then [description_of p] else [])"
    using before_content_lists [OF s1] by (simp add: extract_content_frame)
  have t: "chapter_titles (extract_content p s1) =
      chapter_titles s @
        (if current_page s = 1 \<and> content_div p \<noteq> None then [current_title_of p] else [])"
    using before_content_frame(4,10) [OF s1] by (simp add: extract_content_titles)
  have q: "chapter_urls (extract_content p s1) = chapter_urls s"
    using before_content_frame(2) [OF s1] by (simp add: extract_content_frame)
  from s' d show "chapter_descriptions s' =
           chapter_descriptions s @ (if current_page s = 1 then [description_of p] else [])"
    by (auto dest: end_of_chapter_frame(7))
  from s' t show "chapter_titles s' =
           chapter_titles s @
             (if current_page s = 1 \<and> content_div p \<noteq> None then [current_title_of p] else [])"
    by (auto dest: end_of_chapter_frame(6))
  from s' q show "[] \<notin> set (chapter_urls s) \<Longrightarrow> [] \<notin> set (chapter_urls s')"
    by (auto dest: end_of_chapter_queue)
qed

lemma counts_inv_log [simp]: "counts_inv (s\<lparr>fetch_log := l\<rparr>) = counts_inv s"
  by (simp add: counts_inv_def in_chapter_def)

lemma fetch_page_counts_inv:
  assumes "counts_inv s" and "current_url s = Some u" and "u \<noteq> []"
  shows "counts_inv (state_of (fetch_page web u s))"
proof -
  let ?s0 = "s\<lparr>fetch_log := fetch_log s @ [(u, current_page s)]\<rparr>"
  have inch: "in_chapter s"
    using assms(2,3) by (simp add: in_chapter_def truthy_def)
  show ?thesis
  proof (cases "web u")
    case (Response p)
    show ?thesis
    proof (cases "process_page p ?s0")
      case (Inl e)
      with Response assms(1) show ?thesis by (simp add: fetch_page_def)
    next
      case (Inr s')
      have "counts_inv s'"
        using process_page_position [OF Inr] process_page_lists [OF Inr]
          process_page_processed_urls [OF Inr] assms(1) inch
        by (auto simp: counts_inv_def)
      with Response Inr show ?thesis by (simp add: fetch_page_def)
    qed
  qed (use assms(1) in \<open>simp_all add: fetch_page_def\<close>)
qed

lemma next_chapter_counts_inv:
  assumes "counts_inv s" and "\<not> in_chapter s"
  shows "counts_inv (state_of (next_chapter s))"
proof (cases "chapter_urls s")
  case Nil
  with assms show ?thesis by (simp add: next_chapter_def)
next
  case (Cons u rest)
  show ?thesis
  proof (cases "u \<in> processed_urls s")
    case True
    with Cons assms show ?thesis
      by (simp add: next_chapter_def counts_inv_def in_chapter_def)
  next
    case False
    with Cons assms show ?thesis
      by (auto simp: next_chapter_def counts_inv_def in_chapter_def truthy_def)
  qed
qed

lemma step_counts_inv: "counts_inv s \<Longrightarrow> counts_inv (state_of (step web s))"
  by (auto simp: step_def in_chapter_def truthy_def
      intro: next_chapter_counts_inv fetch_page_counts_inv split: option.splits)

lemma crawl_counts_inv: "counts_inv s \<Longrightarrow> counts_inv (state_of (crawl n web s))"
proof (induction n arbitrary: s)
  case 0
  then show ?case by simp
next
  case (Suc n)
  from step_counts_inv [OF Suc.prems, of web] Suc.IH show ?case
    by (cases "step web s") simp_all
qed

lemma counts_inv_initial: "url \<noteq> [] \<Longrightarrow> counts_inv (initial_state url)"
  by (simp add: counts_inv_def initial_state_def in_chapter_def truthy_def)

lemma crawl_Halt_between_chapters: "crawl n web s = Halt s' \<Longrightarrow> \<not> in_chapter s'"
proof (induction n arbitrary: s)
  case 0
  then show ?case by simp
next
  case (Suc n)
  show ?case
  proof (cases "step web s")
    case (Next s1)
    with Suc show ?thesis by simp
  next
    case (Abort e s1)
    with Suc.prems show ?thesis by simp
  next
    case (Halt s1)
    with Suc.prems have "step web s = Halt s'" by simp
    then show ?thesis
      by (auto simp: step_def next_chapter_def in_chapter_def truthy_def fetch_page_not_Halt
          split: option.splits list.splits if_splits)
  qed
qed

lemma fetch_page_descriptions_counted:
  assumes "length (chapter_descriptions s) = length (chapter_starts (fetch_log s))"
  shows "descriptions_counted (fetch_page web u s)"
proof -
  let ?s0 = "s\<lparr>fetch_log := fetch_log s @ [(u, current_page s)]\<rparr>"
  have s0: "length (chapter_starts (fetch_log ?s0)) =
      length (chapter_descriptions s) + (if current_page s = 1 then 1 else 0)"
    using assms by (simp add: chapter_starts_def)
  show ?thesis
  proof (cases "web u")
    case (Response p)
    show ?thesis
    proof (cases "process_page p ?s0")
      case (Inl e)
      with Response s0 show ?thesis by (simp add: fetch_page_def)
    next
      case (Inr s')
      from process_page_lists(1) [OF Inr] process_page_fetch_log [OF Inr] s0
      have "length (chapter_descriptions s') = length (chapter_starts (fetch_log s'))"
        by simp
      with Response Inr show ?thesis by (simp add: fetch_page_def)
    qed
  qed (use s0 in \<open>simp_all add: fetch_page_def\<close>)
qed

lemma step_descriptions_counted:
  assumes "length (chapter_descriptions s) = length (chapter_starts (fetch_log s))"
  shows "descriptions_counted (step web s)"
  using assms fetch_page_descriptions_counted [OF assms]
  by (auto simp: step_def next_chapter_def split: option.splits list.splits)

lemma crawl_descriptions_counted:
  "length (chapter_descriptions s) = length (chapter_starts (fetch_log s)) \<Longrightarrow>
   descriptions_counted (crawl n web s)"
proof (induction n arbitrary: s)
  case 0
  then show ?case by simp
next
  case (Suc n)
  from step_descriptions_counted [OF Suc.prems, of web] Suc.IH show ?case
    by (cases "step web s") simp_all
qed

lemma initial_descriptions_counted:
  "descriptions_counted (crawl n web (initial_state url))"
  by (rule crawl_descriptions_counted) (simp add: initial_state_def chapter_starts_def)

lemma fetch_page_titles_le:
  assumes "length (chapter_titles s) \<le> length (chapter_descriptions s)"
  shows "length (chapter_titles (state_of (fetch_page web u s))) \<le>
         length (chapter_descriptions (state_of (fetch_page web u s)))"
proof -
  let ?s0 = "s\<lparr>fetch_log := fetch_log s @ [(u, current_page s)]\<rparr>"
  show ?thesis
  proof (cases "web u")
    case (Response p)
    show ?thesis
    proof (cases "process_page p ?s0")
      case (Inl e)
      with Response assms show ?thesis by (simp add: fetch_page_def)
    next
      case (Inr s')
      from process_page_lists(1,2) [OF Inr] assms
      have "length (chapter_titles s') \<le> length (chapter_descriptions s')"
        by simp
      with Response Inr show ?thesis by (simp add: fetch_page_def)
    qed
  qed (use assms in \<open>simp_all add: fetch_page_def\<close>)
qed

lemma step_titles_le:
  assumes "length (chapter_titles s) \<le> length (chapter_descriptions s)"
  shows "length (chapter_titles (state_of (step web s))) \<le>
         length (chapter_descriptions (state_of (step web s)))"
  using assms fetch_page_titles_le [OF assms]
  by (auto simp: step_def next_chapter_def split: option.splits list.splits)

lemma crawl_titles_le:
  "length (chapter_titles s) \<le> length (chapter_descriptions s) \<Longrightarrow>
   length (chapter_titles (state_of (crawl n web s))) \<le>
     length (chapter_descriptions (state_of (crawl n web s)))"
proof (induction n arbitrary: s)
  case 0
  then show ?case by simp
next
  case (Suc n)
  from step_titles_le [OF Suc.prems, of web] Suc.IH show ?case
    by (cases "step web s") simp_all
qed

text \<open>
  Claim C4 fails on the code. Chapter \<open>a\<close> has no content block, so it yields no
  paragraph: its empty body is appended to \<open>chapter_contents\<close>, but its title \<open>A\<close> is not
  recorded, \<open>chapter_titles\<close> is one entry short, and the combined story pairs the
  title of chapter \<open>b\<close> with the empty body of chapter \<open>a\<close> and drops the body of \<open>b\<close>.
\<close>

theorem missing_content_block_loses_title:
  "chapter_contents (state_of (crawl 5 web_gap (initial_state ''http://a''))) =
     [[], ''pb'' @ [nl, nl]] \<and>
   download_story 5 web_gap ''http://a'' =
     Some (Some ([nl, nl] @ ''Chapter 1: B'' @ [nl, nl]), Some ''A'', Some ''Unknown Author'',
           None, Some [], Some [''B''], Some [''dA'', ''dB''])"
  by code_simp

text \<open>
  Claim C10 as stated fails for the empty seed URL. The URL is popped and added to
  \<open>processed_urls\<close>, the page loop \<^verbatim>\<open>while current_url\<close> is skipped, and the crawl returns
  with one processed chapter start and no description.
\<close>

theorem empty_seed_counterexample:
  "crawl 2 web_gap (initial_state []) =
     Halt (state_of (crawl 2 web_gap (initial_state []))) \<and>
   processed_urls (state_of (crawl 2 web_gap (initial_state []))) = {[]} \<and>
   card (processed_urls (state_of (crawl 2 web_gap (initial_state [])))) = 1 \<and>
   length (chapter_descriptions (state_of (crawl 2 web_gap (initial_state [])))) = 0 \<and>
   download_story 2 web_gap [] =
     Some (Some [], Some ''Unknown Title'', Some ''Unknown Author'', None, Some [], Some [],
           Some [])"
  by code_simp

text \<open>
  Claim C10, amended. At every step of every crawl: there is one description for every
  chapter start of the history (a fetch that failed may be a chapter start without
  one), and there are at most as many chapter titles as chapter descriptions. When the
  seed URL is not empty there are as many descriptions as URLs in \<open>processed_urls\<close>,
  but for the chapter whose first page is about to be fetched; when the crawl halts the
  two numbers are equal. A page processed as a first page appends one description, empty
  or not, and appends a title only when it has a content block; a later page appends
  neither. When the lists differ in length the packager's \<^verbatim>\<open>zip\<close> pairs a title with
  the description of another chapter: for the two chapters \<open>A\<close> (no content block,
  description \<open>dA\<close>) and \<open>B\<close> (description \<open>dB\<close>) the description of the book is
  \<open>B: dA\<close>.
\<close>

theorem titles_descriptions_counts:
  "descriptions_counted (crawl n web (initial_state url)) \<and>
   length (chapter_titles (state_of (crawl n web (initial_state url)))) \<le>
     length (chapter_descriptions (state_of (crawl n web (initial_state url)))) \<and>
   (url \<noteq> [] \<longrightarrow>
      card (processed_urls (state_of (crawl n web (initial_state url)))) =
        length (chapter_descriptions (state_of (crawl n web (initial_state url)))) +
        (if in_chapter (state_of (crawl n web (initial_state url))) \<and>
            current_page (state_of (crawl n web (initial_state url))) = 1 then 1 else 0)) \<and>
   (url \<noteq> [] \<and> crawl n web (initial_state url) = Halt h \<longrightarrow>
      card (processed_urls h) = length (chapter_descriptions h)) \<and>
   (process_page p s = Inr s' \<longrightarrow>
      chapter_descriptions s' =
        chapter_descriptions s @ (if current_page s = 1 then [description_of p] else []) \<and>
      chapter_titles s' =
        chapter_titles s @
          (if current_page s = 1 \<and> content_div p \<noteq> None then [current_title_of p] else [])) \<and>
   chapter_titles (state_of (crawl 5 web_gap (initial_state ''http://a''))) = [''B''] \<and>
   chapter_descriptions (state_of (crawl 5 web_gap (initial_state ''http://a''))) =
     [''dA'', ''dB''] \<and>
   epub_description (Some [''B'']) (Some [''dA'', ''dB'']) = Some ''B: dA''"
proof (intro conjI impI)
  show "length (chapter_titles (state_of (crawl n web (initial_state url)))) \<le>
     length (chapter_descriptions (state_of (crawl n web (initial_state url))))"
    by (rule crawl_titles_le) (simp add: initial_state_def)
next
  assume url: "url \<noteq> []"
  let ?s = "state_of (crawl n web (initial_state url))"
  have inv: "counts_inv ?s"
    by (rule crawl_counts_inv [OF counts_inv_initial [OF url]])
  from inv show "card (processed_urls ?s) =
        length (chapter_descriptions ?s) + (if in_chapter ?s \<and> current_page ?s = 1 then 1 else 0)"
    by (auto simp: counts_inv_def split: if_splits)
next
  assume a: "url \<noteq> [] \<and> crawl n web (initial_state url) = Halt h"
  then have "counts_inv h"
    using crawl_counts_inv [OF counts_inv_initial, of url n web] by simp
  moreover from a have "\<not> in_chapter h"
    by (auto dest: crawl_Halt_between_chapters)
  ultimately show "card (processed_urls h) = length (chapter_descriptions h)"
    by (simp add: counts_inv_def)
next
  assume "process_page p s = Inr s'"
  from process_page_lists(1) [OF this]
  show "chapter_descriptions s' =
        chapter_descriptions s @ (if current_page s = 1 then [description_of p] else [])" .
next
  assume "process_page p s = Inr s'"
  from process_page_lists(2) [OF this]
  show "chapter_titles s' =
        chapter_titles s @
          (if current_page s = 1 \<and> content_div p \<noteq> None then [current_title_of p] else [])" .
next
  show "chapter_titles (state_of (crawl 5 web_gap (initial_state ''http://a''))) = [''B'']"
    by code_simp
next
  show "chapter_descriptions (state_of (crawl 5 web_gap (initial_state ''http://a''))) =
     [''dA'', ''dB'']"
    by code_simp
next
  show "epub_description (Some [''B'']) (Some [''dA'', ''dB'']) = Some ''B: dA''"
    by code_simp
next
  show "descriptions_counted (crawl n web (initial_state url))"
    by (rule initial_descriptions_counted)
qed

text \<open>
  The crawl of the two chapters halts after five steps with two processed chapter
  starts, two descriptions and one title; the first page of chapter \<open>a\<close> appends the
  description \<open>dA\<close> and no title.
\<close>

theorem titles_descriptions_counts_witness:
  "''http://a'' \<noteq> [] \<and>
   crawl 5 web_gap (initial_state ''http://a'') =
     Halt (state_of (crawl 5 web_gap (initial_state ''http://a''))) \<and>
   card (processed_urls (state_of (crawl 5 web_gap (initial_state ''http://a'')))) = 2 \<and>
   length (chapter_descriptions (state_of (crawl 5 web_gap (initial_state ''http://a'')))) = 2 \<and>
   length (chapter_titles (state_of (crawl 5 web_gap (initial_state ''http://a'')))) = 1 \<and>
   (\<exists>s'. process_page
            (empty_page\<lparr>title_tag := Some ''A'', desc_nodes := Some [''dA'']\<rparr>)
            (state_of (crawl 1 web_gap (initial_state ''http://a''))) = Inr s' \<and>
         chapter_descriptions s' = [''dA''] \<and> chapter_titles s' = [])"
proof -
  let ?g = "state_of (crawl 5 web_gap (initial_state ''http://a''))"
  let ?s = "state_of (crawl 1 web_gap (initial_state ''http://a''))"
  let ?p = "empty_page\<lparr>title_tag := Some ''A'', desc_nodes := Some [''dA'']\<rparr>"
  have halt: "crawl 5 web_gap (initial_state ''http://a'') = Halt ?g"
    by code_simp
  have len: "length (chapter_descriptions ?g) = 2" "length (chapter_titles ?g) = 1"
    by code_simp+
  have ok: "case process_page ?p ?s of Inl e \<Rightarrow> False | Inr s' \<Rightarrow> True"
    by code_simp
  then obtain s' where s': "process_page ?p ?s = Inr s'"
    by (cases "process_page ?p ?s") auto
  have s: "current_page ?s = 1" "chapter_descriptions ?s = []" "chapter_titles ?s = []"
    "content_div ?p = None" "description_of ?p = ''dA''"
    by code_simp+
  from titles_descriptions_counts [where url = "''http://a''" and n = 5 and web = web_gap
      and h = ?g and p = ?p and s = ?s and s' = s'] halt len s' s
  have "card (processed_urls ?g) = 2 \<and> chapter_descriptions s' = [''dA''] \<and>
      chapter_titles s' = []"
    by simp
  with halt len s' show ?thesis by auto
qed

subsection \<open>Category and tags\<close>

lemma is_space_lower_char: "is_space x \<Longrightarrow> lower_char x = x"
  unfolding is_space_def by (elim insertE emptyE) (simp_all add: lower_char_def upper_letters_def lower_letters_def)

lemma lower_char_not_space:
  assumes "lower_char x = c" and "\<not> is_space c"
  shows "\<not> is_space x"
  using assms is_space_lower_char [of x] by auto

lemma rstrip_Cons: "\<not> is_space x \<Longrightarrow> rstrip (x # xs) = x # rstrip xs"
  by (simp add: rstrip_def dropWhile_append)

lemma strip_inc:
  assumes "startswith (lower t) ''inc''"
  shows "startswith (lower (strip t)) ''inc''"
proof -
  from assms obtain a b c rest where t: "t = a # b # c # rest"
    and l: "lower_char a = CHR ''i''" "lower_char b = CHR ''n''" "lower_char c = CHR ''c''"
    by (cases t; cases "tl t"; cases "tl (tl t)") (auto simp: lower_def)
  have sp: "\<not> is_space CHR ''i''" "\<not> is_space CHR ''n''" "\<not> is_space CHR ''c''"
    by (simp_all add: is_space_def)
  have ns: "\<not> is_space a" "\<not> is_space b" "\<not> is_space c"
    using l sp lower_char_not_space by blast+
  then have "strip t = a # b # c # rstrip rest"
    by (simp add: t strip_def lstrip_def rstrip_Cons)
  with l show ?thesis by (simp add: lower_def)
qed

lemma extract_category_None:
  "extract_category p None = None \<or> extract_category p None = Some ''I/T'' \<or>
   (\<exists>c. extract_category p None = Some c \<and> \<not> startswith (lower c) ''inc'')"
  by (auto simp: extract_category_def Let_def split: option.splits)

lemma lower_IT: "\<not> startswith (lower ''I/T'') ''inc''"
  by (simp add: lower_def lower_char_def upper_letters_def lower_letters_def)

lemma kept_tags_no_inc: "x \<in> set (kept_tags p) \<Longrightarrow> \<not> startswith (lower x) ''inc''"
  by (simp add: kept_tags_def)

lemma extract_tags_no_inc:
  assumes "x \<in> set (extract_tags p (extract_category p None))"
  shows "\<not> startswith (lower x) ''inc''"
  using assms extract_category_None [of p] lower_IT
  by (auto simp: extract_tags_def dest: kept_tags_no_inc split: option.splits if_splits)

lemma extract_content_metadata:
  "story_category (extract_content p s) = story_category s"
  "story_tags (extract_content p s) = story_tags s"
  by (simp_all add: extract_content_def split: option.splits)

lemma end_of_chapter_metadata:
  assumes "end_of_chapter p s = Inr s'"
  shows "story_category s' = story_category s" "story_tags s' = story_tags s"
  using assms
  by (auto simp: end_of_chapter_def capture_series_title_def Let_def
      split: option.splits sum.splits if_splits)

lemma process_page_metadata:
  assumes "process_page p s = Inr s'" and "current_page s = 1" and "current_chapter s = 1"
  shows "story_category s' = extract_category p (story_category s)"
    and "story_tags s' = extract_tags p (extract_category p (story_category s))"
proof -
  from assms(1) obtain s1 where s1: "(if current_page s = 1 then first_page p s else Inr s) = Inr s1"
    and s': "(\<exists>link h. next_page_link p = Some link \<and> href link = Some h \<and>
            s' = (extract_content p s1)\<lparr>current_url := Some (absolute_url h),
                                         current_page := current_page (extract_content p s1) + 1\<rparr>) \<or>
         (next_page_link p = None \<and> end_of_chapter p (extract_content p s1) = Inr s')"
    by (rule process_page_Inr)
  from s1 assms(2,3) have m: "story_category s1 = extract_category p (story_category s)"
    "story_tags s1 = extract_tags p (extract_category p (story_category s))"
    by (auto simp: first_page_def story_metadata_def Let_def split: option.splits)
  from s' m show "story_category s' = extract_category p (story_category s)"
    by (auto simp: extract_content_metadata dest: end_of_chapter_metadata)
  from s' m show "story_tags s' = extract_tags p (extract_category p (story_category s))"
    by (auto simp: extract_content_metadata dest: end_of_chapter_metadata)
qed

text \<open>The second step of a crawl processes the first page of the first chapter.\<close>

lemma first_page_of_crawl:
  assumes "url \<noteq> []" and "web url = Response p"
    and "crawl 2 web (initial_state url) = Next s"
  shows "story_category s = extract_category p None"
    and "story_tags s = extract_tags p (extract_category p None)"
proof -
  let ?s1 = "(initial_state url)\<lparr>chapter_urls := [], processed_urls := {url},
      current_chapter := 1, current_chapter_content := [], current_url := Some url\<rparr>"
  let ?s0 = "?s1\<lparr>fetch_log := [(url, 1)]\<rparr>"
  have "step web (initial_state url) = Next ?s1"
    by (simp add: step_def next_chapter_def initial_state_def)
  with assms(3) have "step web ?s1 = Next s"
    by (simp add: numeral_2_eq_2 split: step_result.splits)
  with assms(1,2) have pp: "process_page p ?s0 = Inr s"
    by (auto simp: step_def fetch_page_def initial_state_def Let_def split: sum.splits)
  have "current_page ?s0 = 1" "current_chapter ?s0 = 1" "story_category ?s0 = None"
    by (simp_all add: initial_state_def)
  with process_page_metadata [OF pp] show "story_category s = extract_category p None"
    and "story_tags s = extract_tags p (extract_category p None)"
    by simp_all
qed

text \<open>
  Claim C6. On the first page of the first chapter: a raw category text that begins with
  "inc" in any letter case is stored as the literal \<open>I/T\<close>; no tag whose text begins
  with "inc" in any letter case is in the stored tag list, and nothing in the stored
  list begins with "inc"; and a category that was derived (a string that is not empty,
  the test \<^verbatim>\<open>if story_category\<close> of the source) and is not among the tags kept from
  the page is the first tag, followed by those tags.
\<close>

theorem category_and_tag_rules:
  assumes "url \<noteq> []" and "web url = Response p"
    and "crawl 2 web (initial_state url) = Next s"
  shows "(breadcrumb p = Some links \<and> 2 \<le> length links \<and>
          startswith (lower (links ! 1)) ''inc'' \<longrightarrow> story_category s = Some ''I/T'') \<and>
         (\<forall>t \<in> set (tag_elements p).
            startswith (lower t) ''inc'' \<longrightarrow> strip t \<notin> set (story_tags s)) \<and>
         (\<forall>x \<in> set (story_tags s). \<not> startswith (lower x) ''inc'') \<and>
         (story_category s = Some c \<and> c \<noteq> [] \<and> c \<notin> set (kept_tags p) \<longrightarrow>
            story_tags s = c # kept_tags p)"
proof -
  note meta = first_page_of_crawl [OF assms]
  have no_inc: "\<forall>x \<in> set (story_tags s). \<not> startswith (lower x) ''inc''"
    using extract_tags_no_inc [of _ p] by (simp add: meta)
  have a: "breadcrumb p = Some links \<and> 2 \<le> length links \<and>
          startswith (lower (links ! 1)) ''inc'' \<longrightarrow> story_category s = Some ''I/T''"
    using strip_inc [of "links ! 1"] by (auto simp: meta extract_category_def Let_def)
  have b: "\<forall>t \<in> set (tag_elements p).
            startswith (lower t) ''inc'' \<longrightarrow> strip t \<notin> set (story_tags s)"
    using no_inc strip_inc by blast
  have d: "story_category s = Some c \<and> c \<noteq> [] \<and> c \<notin> set (kept_tags p) \<longrightarrow>
            story_tags s = c # kept_tags p"
    by (auto simp: meta extract_tags_def)
  from a b no_inc d show ?thesis by blast
qed

text \<open>
  The category "Incest/Taboo" is stored as \<open>I/T\<close>; of the tags "incest", " romance "
  and "INCubus" only "romance" is kept, after the category.
\<close>

theorem category_and_tag_rules_witness:
  "''http://a'' \<noteq> [] \<and> web_taboo ''http://a'' = Response taboo_page \<and>
   crawl 2 web_taboo (initial_state ''http://a'') =
     Next (state_of (crawl 2 web_taboo (initial_state ''http://a''))) \<and>
   breadcrumb taboo_page = Some [''Home'', ''Incest/Taboo''] \<and>
   story_category (state_of (crawl 2 web_taboo (initial_state ''http://a''))) = Some ''I/T'' \<and>
   story_tags (state_of (crawl 2 web_taboo (initial_state ''http://a''))) = [''I/T'', ''romance'']"
proof -
  let ?s = "state_of (crawl 2 web_taboo (initial_state ''http://a''))"
  have u: "''http://a'' \<noteq> []" by simp
  have w: "web_taboo ''http://a'' = Response taboo_page"
    by (simp add: web_taboo_def)
  have c: "crawl 2 web_taboo (initial_state ''http://a'') = Next ?s"
    by code_simp
  have b: "breadcrumb taboo_page = Some [''Home'', ''Incest/Taboo'']"
    "startswith (lower ([''Home'', ''Incest/Taboo''] ! 1)) ''inc''"
    "kept_tags taboo_page = [''romance'']"
    by code_simp+
  from category_and_tag_rules [OF u w c, of "[''Home'', ''Incest/Taboo'']" "''I/T''"] b
  have "story_category ?s = Some ''I/T'' \<and> story_tags ?s = [''I/T'', ''romance'']"
    by simp
  with u w c b show ?thesis by simp
qed

text \<open>
  Claim C7 as stated fails: the tag list is built by a list comprehension that keeps
  repetitions. A first page that lists the tag "love" twice gives a result whose tag list
  holds "love" twice.
\<close>

theorem repeated_tag_counterexample:
  "download_story 3 web_repeated_tag ''http://a'' =
     Some (Some ([nl, nl] @ ''Chapter 1: T'' @ [nl, nl] @ ''p'' @ [nl, nl]), Some ''T'',
           Some ''Unknown Author'', Some ''Romance'',
           Some [''Romance'', ''love'', ''love''], Some [''T''], Some [[]]) \<and>
   \<not> distinct [''Romance'', ''love'', ''love'']"
  by code_simp

lemma process_page_progress:
  assumes "process_page p s = Inr s'"
  shows "(in_chapter s' \<and> current_page s' = current_page s + 1 \<and>
          chapter_contents s' = chapter_contents s) \<or>
         (\<not> in_chapter s' \<and> chapter_contents s' \<noteq> [])"
proof -
  from assms obtain s1 where s1: "(if current_page s = 1 then first_page p s else Inr s) = Inr s1"
    and s': "(\<exists>link h. next_page_link p = Some link \<and> href link = Some h \<and>
            s' = (extract_content p s1)\<lparr>current_url := Some (absolute_url h),
                                         current_page := current_page (extract_content p s1) + 1\<rparr>) \<or>
         (next_page_link p = None \<and> end_of_chapter p (extract_content p s1) = Inr s')"
    by (rule process_page_Inr)
  from s' show ?thesis
  proof (elim disjE exE conjE)
    fix link h
    assume "s' = (extract_content p s1)\<lparr>current_url := Some (absolute_url h),
                   current_page := current_page (extract_content p s1) + 1\<rparr>"
    then show ?thesis
      using before_content_frame(4,6) [OF s1]
      by (simp add: in_chapter_def truthy_def absolute_url_nonempty extract_content_frame)
  next
    assume e: "end_of_chapter p (extract_content p s1) = Inr s'"
    from end_of_chapter_frame(2,5) [OF e] show ?thesis
      by (simp add: in_chapter_def truthy_def)
  qed
qed

lemma process_page_metadata_kept:
  assumes "process_page p s = Inr s'" and "current_page s \<noteq> 1 \<or> current_chapter s \<noteq> 1"
  shows "story_category s' = story_category s" and "story_tags s' = story_tags s"
proof -
  from assms(1) obtain s1 where s1: "(if current_page s = 1 then first_page p s else Inr s) = Inr s1"
    and s': "(\<exists>link h. next_page_link p = Some link \<and> href link = Some h \<and>
            s' = (extract_content p s1)\<lparr>current_url := Some (absolute_url h),
                                         current_page := current_page (extract_content p s1) + 1\<rparr>) \<or>
         (next_page_link p = None \<and> end_of_chapter p (extract_content p s1) = Inr s')"
    by (rule process_page_Inr)
  from s1 assms(2) have m: "story_category s1 = story_category s" "story_tags s1 = story_tags s"
    by (auto simp: first_page_def Let_def split: option.splits if_splits)
  from s' m show "story_category s' = story_category s"
    by (auto simp: extract_content_metadata dest: end_of_chapter_metadata)
  from s' m show "story_tags s' = story_tags s"
    by (auto simp: extract_content_metadata dest: end_of_chapter_metadata)
qed

lemma metadata_done_log [simp]: "metadata_done (s\<lparr>fetch_log := l\<rparr>) = metadata_done s"
  by (simp add: metadata_done_def chapter_numbered_def in_chapter_def)

lemma fetch_page_metadata_done:
  assumes "metadata_done s" and "current_url s = Some u" and "u \<noteq> []"
  shows "metadata_done (state_of (fetch_page web u s))"
    and "story_category (state_of (fetch_page web u s)) = story_category s"
    and "story_tags (state_of (fetch_page web u s)) = story_tags s"
proof -
  let ?s0 = "s\<lparr>fetch_log := fetch_log s @ [(u, current_page s)]\<rparr>"
  have inch: "in_chapter s"
    using assms(2,3) by (simp add: in_chapter_def truthy_def)
  with assms(1) have num: "current_chapter ?s0 = length (chapter_contents ?s0) + 1"
    by (simp add: metadata_done_def chapter_numbered_def)
  from assms(1) num have later: "current_page ?s0 \<noteq> 1 \<or> current_chapter ?s0 \<noteq> 1"
    by (auto simp: metadata_done_def)
  have "metadata_done (state_of (fetch_page web u s)) \<and>
        story_category (state_of (fetch_page web u s)) = story_category s \<and>
        story_tags (state_of (fetch_page web u s)) = story_tags s"
  proof (cases "web u")
    case (Response p)
    show ?thesis
    proof (cases "process_page p ?s0")
      case (Inl e)
      with Response assms(1) show ?thesis by (simp add: fetch_page_def)
    next
      case (Inr s')
      have "metadata_done s'"
        using process_page_progress [OF Inr] process_page_chapter_numbered [OF num Inr]
          assms(1) inch
        by (auto simp: metadata_done_def)
      with process_page_metadata_kept [OF Inr later] Response Inr show ?thesis
        by (simp add: fetch_page_def)
    qed
  qed (use assms(1) in \<open>simp_all add: fetch_page_def\<close>)
  then show "metadata_done (state_of (fetch_page web u s))"
    and "story_category (state_of (fetch_page web u s)) = story_category s"
    and "story_tags (state_of (fetch_page web u s)) = story_tags s"
    by simp_all
qed

lemma next_chapter_metadata_done:
  assumes "metadata_done s" and "\<not> in_chapter s"
  shows "metadata_done (state_of (next_chapter s))"
    and "story_category (state_of (next_chapter s)) = story_category s"
    and "story_tags (state_of (next_chapter s)) = story_tags s"
  using assms
  by (auto simp: next_chapter_def metadata_done_def chapter_numbered_def in_chapter_def
      truthy_def split: list.splits)

lemma step_metadata_done:
  assumes "metadata_done s"
  shows "metadata_done (state_of (step web s))"
    and "story_category (state_of (step web s)) = story_category s"
    and "story_tags (state_of (step web s)) = story_tags s"
proof -
  have "metadata_done (state_of (step web s)) \<and>
        story_category (state_of (step web s)) = story_category s \<and>
        story_tags (state_of (step web s)) = story_tags s"
  proof (cases "in_chapter s")
    case True
    then obtain u where u: "current_url s = Some u" "u \<noteq> []"
      by (auto simp: in_chapter_def truthy_def split: option.splits)
    with fetch_page_metadata_done [OF assms u, of web] show ?thesis
      by (simp add: step_def)
  next
    case False
    then have "step web s = next_chapter s"
      by (auto simp: step_def in_chapter_def truthy_def split: option.splits)
    with next_chapter_metadata_done [OF assms False] show ?thesis by simp
  qed
  then show "metadata_done (state_of (step web s))"
    and "story_category (state_of (step web s)) = story_category s"
    and "story_tags (state_of (step web s)) = story_tags s"
    by simp_all
qed

lemma crawl_metadata_kept:
  "metadata_done s \<Longrightarrow>
   story_category (state_of (crawl n web s)) = story_category s \<and>
   story_tags (state_of (crawl n web s)) = story_tags s"
proof (induction n arbitrary: s)
  case 0
  show ?case by simp
next
  case (Suc n)
  from step_metadata_done [OF Suc.prems, of web] Suc.IH show ?case
    by (cases "step web s") simp_all
qed

text \<open>The first two steps of a crawl: the seed is popped and its page is processed.\<close>

lemma second_step:
  assumes "url \<noteq> []" and "web url = Response p"
    and "crawl 2 web (initial_state url) = Next s"
  shows "process_page p
           ((initial_state url)\<lparr>chapter_urls := [], processed_urls := {url},
              current_chapter := 1, current_chapter_content := [], current_url := Some url,
              fetch_log := [(url, 1)]\<rparr>) = Inr s"
proof -
  let ?s1 = "(initial_state url)\<lparr>chapter_urls := [], processed_urls := {url},
      current_chapter := 1, current_chapter_content := [], current_url := Some url\<rparr>"
  have "step web (initial_state url) = Next ?s1"
    by (simp add: step_def next_chapter_def initial_state_def)
  with assms(3) have "step web ?s1 = Next s"
    by (simp add: numeral_2_eq_2 split: step_result.splits)
  with assms(1,2) show ?thesis
    by (auto simp: step_def fetch_page_def initial_state_def Let_def split: sum.splits)
qed

lemma second_step_metadata_done:
  assumes "url \<noteq> []" and "web url = Response p"
    and "crawl 2 web (initial_state url) = Next s"
  shows "metadata_done s"
proof -
  have "series_inv (state_of (crawl 2 web (initial_state url)))"
    by (rule crawl_series_inv [OF series_inv_initial])
  with assms(3) have "chapter_numbered s"
    by (simp add: series_inv_def)
  with process_page_progress [OF second_step [OF assms]] show ?thesis
    by (auto simp: metadata_done_def initial_state_def)
qed

lemma halted_after_first_page:
  assumes "url \<noteq> []" and "crawl n web (initial_state url) = Halt h"
  shows "\<exists>s k. crawl 2 web (initial_state url) = Next s \<and> crawl k web s = Halt h"
proof -
  let ?s1 = "(initial_state url)\<lparr>chapter_urls := [], processed_urls := {url},
      current_chapter := 1, current_chapter_content := [], current_url := Some url\<rparr>"
  have one: "step web (initial_state url) = Next ?s1"
    by (simp add: step_def next_chapter_def initial_state_def)
  have two: "step web ?s1 = fetch_page web url ?s1"
    using assms(1) by (simp add: step_def initial_state_def)
  obtain k where n: "n = 2 + k"
  proof (cases n)
    case 0
    with assms(2) show ?thesis by simp
  next
    case (Suc n')
    show ?thesis
    proof (cases n')
      case 0
      with Suc assms(2) one show ?thesis by simp
    next
      case (Suc k)
      with \<open>n = Suc n'\<close> that [of k] show ?thesis by simp
    qed
  qed
  show ?thesis
  proof (cases "crawl 2 web (initial_state url)")
    case (Next s)
    have "crawl (2 + k) web (initial_state url) = crawl k web s"
      by (simp only: crawl_add Next step_result.case)
    with assms(2) n have "crawl k web s = Halt h"
      by simp
    with Next show ?thesis by blast
  next
    case (Abort e s)
    have "crawl (2 + k) web (initial_state url) = Abort e s"
      by (simp only: crawl_add Abort step_result.case)
    with assms(2) n show ?thesis by simp
  next
    case (Halt s)
    then have "fetch_page web url ?s1 = Halt s"
      using one two by (simp add: numeral_2_eq_2 split: step_result.splits)
    then show ?thesis by (simp add: fetch_page_not_Halt)
  qed
qed

lemma halted_empty_seed:
  assumes "crawl n web (initial_state []) = Halt h"
  shows "story_category h = None" and "story_tags h = []"
proof -
  let ?s1 = "(initial_state [])\<lparr>chapter_urls := [], processed_urls := {[]},
      current_chapter := 1, current_chapter_content := [], current_url := Some []\<rparr>"
  have one: "step web (initial_state []) = Next ?s1"
    by (simp add: step_def next_chapter_def initial_state_def)
  have two: "step web ?s1 = Halt ?s1"
    by (simp add: step_def next_chapter_def initial_state_def)
  have "h = ?s1"
  proof (cases n)
    case 0
    with assms show ?thesis by simp
  next
    case (Suc n')
    show ?thesis
    proof (cases n')
      case 0
      with Suc assms one show ?thesis by simp
    next
      case (Suc k)
      with \<open>n = Suc n'\<close> assms one two show ?thesis by simp
    qed
  qed
  then show "story_category h = None" and "story_tags h = []"
    by (simp_all add: initial_state_def)
qed

lemma halted_metadata:
  assumes "url \<noteq> []" and "web url = Response p"
    and "crawl n web (initial_state url) = Halt h"
  shows "story_category h = extract_category p None"
    and "story_tags h = extract_tags p (extract_category p None)"
proof -
  from halted_after_first_page [OF assms(1,3)] obtain s k
    where s: "crawl 2 web (initial_state url) = Next s" and k: "crawl k web s = Halt h"
    by blast
  from crawl_metadata_kept [OF second_step_metadata_done [OF assms(1,2) s], of k web] k
  have "story_category h = story_category s" "story_tags h = story_tags s"
    by simp_all
  with first_page_of_crawl [OF assms(1,2) s]
  show "story_category h = extract_category p None"
    and "story_tags h = extract_tags p (extract_category p None)"
    by simp_all
qed

lemma extract_tags_with_category: "extract_tags p category = tags_with_category category (kept_tags p)"
  by (simp add: extract_tags_def tags_with_category_def)

lemma distinct_tags_with_category:
  "distinct (tags_with_category category kept) = distinct kept"
  by (simp add: tags_with_category_def split: option.splits)

text \<open>
  Claim C7, amended. In every result of a crawl the tag list is the list of the tags
  kept from the first page of the story (the stripped tag texts that do not begin with
  "inc"), in page order and with their repetitions, preceded by the category of the
  result when that category is a non-empty string that is not among them. The category
  is never a duplicate, so the list of the result is free of duplicates exactly when
  the tags kept from the page are. For the empty seed URL no page is read and the list
  is empty.
\<close>

theorem result_tag_list:
  assumes "download_story n web url =
             Some (content, title, author, category, Some tags, titles, descriptions)"
  shows "(url = [] \<longrightarrow> category = None \<and> tags = []) \<and>
         (url \<noteq> [] \<and> web url = Response p \<longrightarrow>
            category = extract_category p None \<and>
            tags = tags_with_category category (kept_tags p) \<and>
            distinct tags = distinct (kept_tags p))"
proof -
  from assms obtain h where h: "crawl n web (initial_state url) = Halt h"
    and c: "category = story_category h" and t: "tags = story_tags h"
    by (auto simp: download_story_def failure_def success_def split: step_result.splits)
  show ?thesis
  proof (intro conjI impI)
    assume "url = []"
    with h halted_empty_seed [of n web h] c t show "category = None" and "tags = []"
      by simp_all
  next
    assume a: "url \<noteq> [] \<and> web url = Response p"
    with halted_metadata [of url web p n h] h c t
    show cat: "category = extract_category p None"
      and tg: "tags = tags_with_category category (kept_tags p)"
      by (simp_all add: extract_tags_with_category)
    from tg show "distinct tags = distinct (kept_tags p)"
      by (simp only: distinct_tags_with_category)
  qed
qed

text \<open>
  The result for the page with the category "Incest/Taboo": the category \<open>I/T\<close> is put
  before the one tag kept; and the result for the empty seed.
\<close>

theorem result_tag_list_witness:
  "download_story 3 web_taboo ''http://a'' =
     Some (Some [], Some ''T'', Some ''Unknown Author'', Some ''I/T'',
           Some [''I/T'', ''romance''], Some [], Some [[]]) \<and>
   web_taboo ''http://a'' = Response taboo_page \<and> kept_tags taboo_page = [''romance''] \<and>
   extract_category taboo_page None = Some ''I/T'' \<and>
   tags_with_category (Some ''I/T'') [''romance''] = [''I/T'', ''romance''] \<and>
   distinct [''I/T'', ''romance''] \<and>
   download_story 2 web_taboo [] =
     Some (Some [], Some ''Unknown Title'', Some ''Unknown Author'', None, Some [], Some [],
           Some [])"
proof -
  have r: "download_story 3 web_taboo ''http://a'' =
     Some (Some [], Some ''T'', Some ''Unknown Author'', Some ''I/T'',
           Some [''I/T'', ''romance''], Some [], Some [[]])"
    by code_simp
  have e: "download_story 2 web_taboo [] =
     Some (Some [], Some ''Unknown Title'', Some ''Unknown Author'', None, Some [], Some [],
           Some [])"
    by code_simp
  have w: "web_taboo ''http://a'' = Response taboo_page"
    by (simp add: web_taboo_def)
  have k: "kept_tags taboo_page = [''romance'']"
    by code_simp
  have u: "''http://a'' \<noteq> [] \<and> web_taboo ''http://a'' = Response taboo_page"
    using w by simp
  from result_tag_list [OF r, of taboo_page] u
  have "Some ''I/T'' = extract_category taboo_page None \<and>
        [''I/T'', ''romance''] = tags_with_category (Some ''I/T'') (kept_tags taboo_page)"
    by blast
  with k have c: "extract_category taboo_page None = Some ''I/T''"
    and t: "tags_with_category (Some ''I/T'') [''romance''] = [''I/T'', ''romance'']"
    by simp_all
  have d: "distinct [''I/T'', ''romance'']"
    by simp
  from result_tag_list [OF e, of taboo_page]
  have n: "(None :: string option) = None \<and> ([] :: string list) = []"
    by simp
  from r e w k c t d n show ?thesis by simp
qed

end
